theory Spec2Isabelle
  imports Complex_Main "HOL-Library.Word"
begin

unbundle bit_operations_syntax

section \<open>Numbers, bytes and typed arrays\<close>

text \<open>
  The audio utilities work on JavaScript numbers held in \<open>Float32Array\<close>s. Every finite
  float is a rational number, and the arithmetic the utilities perform on a 32-bit float
  (an addition of \<open>0.5\<close>, a multiplication by \<open>32767\<close> or \<open>32768\<close>, a division of a
  16-bit integer by \<open>32768\<close>) is exact in double precision, so a finite sample is modelled by
  its rational value. The three non-finite values are kept apart.
\<close>

datatype jsnum = Finite rat | NaN | PosInf | NegInf

type_synonym byte = "8 word"
type_synonym int16 = "16 word"

datatype error = InvalidCharacterError | RangeError | NotSupportedError

text \<open>\<open>Math.min(c, x)\<close> and \<open>Math.max(c, x)\<close> for a finite constant \<open>c\<close>.\<close>

fun math_min :: "rat \<Rightarrow> jsnum \<Rightarrow> jsnum" where
  "math_min c (Finite x) = Finite (min c x)"
| "math_min c NaN = NaN"
| "math_min c PosInf = Finite c"
| "math_min c NegInf = NegInf"

fun math_max :: "rat \<Rightarrow> jsnum \<Rightarrow> jsnum" where
  "math_max c (Finite x) = Finite (max c x)"
| "math_max c NaN = NaN"
| "math_max c PosInf = PosInf"
| "math_max c NegInf = Finite c"

text \<open>\<open>c + x\<close> for a finite constant \<open>c\<close>, \<open>x * c\<close> for a positive constant \<open>c\<close>, and \<open>x < 0\<close>.\<close>

fun js_plus :: "rat \<Rightarrow> jsnum \<Rightarrow> jsnum" where
  "js_plus c (Finite x) = Finite (c + x)"
| "js_plus c NaN = NaN"
| "js_plus c PosInf = PosInf"
| "js_plus c NegInf = NegInf"

fun js_times :: "jsnum \<Rightarrow> rat \<Rightarrow> jsnum" where
  "js_times (Finite x) c = Finite (x * c)"
| "js_times NaN c = NaN"
| "js_times PosInf c = PosInf"
| "js_times NegInf c = NegInf"

fun js_negative :: "jsnum \<Rightarrow> bool" where
  "js_negative (Finite x) = (x < 0)"
| "js_negative NaN = False"
| "js_negative PosInf = False"
| "js_negative NegInf = True"

text \<open>Truncation towards zero, and the integer conversions \<open>ToInt32\<close> (the operator
  \<open>| 0\<close>) and \<open>ToInt16\<close> (a store into an \<open>Int16Array\<close> or through \<open>setInt16\<close>): a
  non-finite number becomes \<open>0\<close>, a finite one is truncated and reduced modulo the width.\<close>

definition trunc :: "rat \<Rightarrow> int" where
  "trunc x = (if 0 \<le> x then \<lfloor>x\<rfloor> else \<lceil>x\<rceil>)"

fun to_integer :: "jsnum \<Rightarrow> int" where
  "to_integer (Finite x) = trunc x"
| "to_integer NaN = 0"
| "to_integer PosInf = 0"
| "to_integer NegInf = 0"

definition to_int32 :: "jsnum \<Rightarrow> 32 word" where
  "to_int32 x = word_of_int (to_integer x)"

definition to_int16 :: "jsnum \<Rightarrow> int16" where
  "to_int16 x = word_of_int (to_integer x)"

text \<open>The byte view of an \<open>Int16Array\<close> and the \<open>Int16Array\<close> view of a byte buffer,
  on a little-endian platform.\<close>

definition bytes_of_int16 :: "int16 \<Rightarrow> byte list" where
  "bytes_of_int16 w = [ucast w, ucast (drop_bit 8 w)]"

definition Uint8Array_of_int16s :: "int16 list \<Rightarrow> byte list" where
  "Uint8Array_of_int16s ws = concat (map bytes_of_int16 ws)"

fun int16s_of_bytes :: "byte list \<Rightarrow> int16 list" where
  "int16s_of_bytes (lo # hi # rest) = (ucast lo OR push_bit 8 (ucast hi)) # int16s_of_bytes rest"
| "int16s_of_bytes _ = []"

text \<open>\<open>new Int16Array(buffer)\<close> throws a \<open>RangeError\<close> when the byte length is odd.\<close>

definition Int16Array_of_buffer :: "byte list \<Rightarrow> error + int16 list" where
  "Int16Array_of_buffer bs = (if even (length bs) then Inr (int16s_of_bytes bs) else Inl RangeError)"

section \<open>Binary transport codec\<close>

text \<open>
  \<open>btoa\<close> and \<open>atob\<close> are functions of the host, not of the repository. They are the
  Base64 encoding with the standard alphabet and \<open>=\<close> padding, and the forgiving
  decoder of the HTML standard: ASCII whitespace is removed, one or two trailing \<open>=\<close> are
  removed when the length is a multiple of four, a remaining length of one modulo four or
  a character outside the alphabet is an \<open>InvalidCharacterError\<close>, and left-over bits are
  dropped. A binary string is a \<open>string\<close>: its characters are the code units \<open>0..255\<close>.
\<close>

definition b64_alphabet :: string where
  "b64_alphabet = ''ABCDEFGHIJKLMNOPQRSTUVWXYZabcdefghijklmnopqrstuvwxyz0123456789+/''"

definition b64_char :: "nat \<Rightarrow> char" where
  "b64_char n = b64_alphabet ! n"

fun index_of :: "'a \<Rightarrow> 'a list \<Rightarrow> nat option" where
  "index_of x [] = None"
| "index_of x (y # ys) = (if x = y then Some 0 else map_option Suc (index_of x ys))"

definition b64_index :: "char \<Rightarrow> nat option" where
  "b64_index c = index_of c b64_alphabet"

fun encode_sextets :: "nat list \<Rightarrow> nat list" where
  "encode_sextets (a # b # c # rest) =
     [a div 4, (a mod 4) * 16 + b div 16, (b mod 16) * 4 + c div 64, c mod 64] @ encode_sextets rest"
| "encode_sextets [a, b] = [a div 4, (a mod 4) * 16 + b div 16, (b mod 16) * 4]"
| "encode_sextets [a] = [a div 4, (a mod 4) * 16]"
| "encode_sextets [] = []"

fun decode_sextets :: "nat list \<Rightarrow> nat list" where
  "decode_sextets (a # b # c # d # rest) =
     [a * 4 + b div 16, (b mod 16) * 16 + c div 4, (c mod 4) * 64 + d] @ decode_sextets rest"
| "decode_sextets [a, b, c] = [a * 4 + b div 16, (b mod 16) * 16 + c div 4]"
| "decode_sextets [a, b] = [a * 4 + b div 16]"
| "decode_sextets _ = []"

definition btoa :: "string \<Rightarrow> string" where
  "btoa s = map b64_char (encode_sextets (map of_char s))
            @ replicate ((3 - length s mod 3) mod 3) (CHR ''='')"

definition is_ascii_whitespace :: "char \<Rightarrow> bool" where
  "is_ascii_whitespace c = (of_char c \<in> {9, 10, 12, 13, 32 :: nat})"

definition strip_padding :: "string \<Rightarrow> string" where
  "strip_padding s =
     (if length s mod 4 = 0 \<and> s \<noteq> [] \<and> last s = CHR ''=''
      then (let s1 = butlast s in if s1 \<noteq> [] \<and> last s1 = CHR ''='' then butlast s1 else s1)
      else s)"

definition atob :: "string \<Rightarrow> error + string" where
  "atob s =
     (let d = strip_padding (filter (\<lambda>c. \<not> is_ascii_whitespace c) s)
      in if length d mod 4 = 1 then Inl InvalidCharacterError
         else case those (map b64_index d) of
                None \<Rightarrow> Inl InvalidCharacterError
              | Some sx \<Rightarrow> Inr (map char_of (decode_sextets sx)))"

text \<open>\<open>encodeAudio\<close>: one character per byte (\<open>String.fromCharCode\<close>), then \<open>btoa\<close>.\<close>

definition encodeAudio :: "byte list \<Rightarrow> string" where
  "encodeAudio bytes = btoa (map (\<lambda>b. char_of (unat b)) bytes)"

text \<open>\<open>decodeAudio\<close>: \<open>atob\<close>, then one byte per character (\<open>charCodeAt\<close> stored into a
  \<open>Uint8Array\<close>).\<close>

definition decodeAudio :: "string \<Rightarrow> error + byte list" where
  "decodeAudio base64 =
     (case atob base64 of
        Inl e \<Rightarrow> Inl e
      | Inr binaryString \<Rightarrow> Inr (map (\<lambda>c. of_nat (of_char c)) binaryString))"

text \<open>The number of \<open>=\<close> characters \<open>btoa\<close> appends, by groups of three bytes.\<close>

fun pad_count :: "'a list \<Rightarrow> nat" where
  "pad_count (a # b # c # rest) = pad_count rest"
| "pad_count [a, b] = 1"
| "pad_count [a] = 2"
| "pad_count [] = 0"

section \<open>Capture encoder and playback decoder\<close>

text \<open>\<open>createPcmBlob\<close>: every sample is multiplied by \<open>32768\<close> and stored into an
  \<open>Int16Array\<close>; the bytes of that array are encoded for transport.\<close>

record Blob =
  data :: string
  mimeType :: string

definition createPcmBlob_int16 :: "jsnum list \<Rightarrow> int16 list" where
  "createPcmBlob_int16 samples = map (\<lambda>x. to_int16 (js_times x 32768)) samples"

definition createPcmBlob :: "jsnum list \<Rightarrow> Blob" where
  "createPcmBlob samples =
     \<lparr> data = encodeAudio (Uint8Array_of_int16s (createPcmBlob_int16 samples)),
       mimeType = ''audio/pcm;rate=16000'' \<rparr>"

text \<open>An \<open>AudioBuffer\<close>: its sample rate, its length in frames and one \<open>Float32Array\<close> per
  channel. The host keeps every channel at the length of the buffer.\<close>

record AudioBuffer =
  sampleRate :: nat
  length_buf :: nat
  channelData :: "jsnum list list"

definition numberOfChannels :: "AudioBuffer \<Rightarrow> nat" where
  "numberOfChannels b = length (channelData b)"

definition duration :: "AudioBuffer \<Rightarrow> rat" where
  "duration b = of_nat (length_buf b) / of_nat (sampleRate b)"

text \<open>
  \<open>createBuffer\<close> is a function of the host (Web Audio API). It throws a
  \<open>NotSupportedError\<close> for a channel count, a length or a sample rate of zero and otherwise
  returns a silent buffer; a fractional length is truncated. The largest channel count and
  the range of sample rates that a host accepts are its own and are not modelled.
\<close>

definition createBuffer :: "nat \<Rightarrow> rat \<Rightarrow> nat \<Rightarrow> error + AudioBuffer" where
  "createBuffer numChannels frameCount rate =
     (if numChannels = 0 \<or> nat \<lfloor>frameCount\<rfloor> = 0 \<or> rate = 0 then Inl NotSupportedError
      else Inr \<lparr> sampleRate = rate, length_buf = nat \<lfloor>frameCount\<rfloor>,
                 channelData = replicate numChannels (replicate (nat \<lfloor>frameCount\<rfloor>) (Finite 0)) \<rparr>)"

text \<open>A store into a typed array outside its range is ignored; a read outside the range
  of an \<open>Int16Array\<close> is \<open>undefined\<close>, which is \<open>NaN\<close> in arithmetic.\<close>

definition typed_store :: "'a list \<Rightarrow> nat \<Rightarrow> 'a \<Rightarrow> 'a list" where
  "typed_store xs i v = (if i < length xs then xs[i := v] else xs)"

definition int16_read :: "int16 list \<Rightarrow> nat \<Rightarrow> jsnum" where
  "int16_read xs i = (if i < length xs then Finite (of_int (sint (xs ! i))) else NaN)"

fun js_divide :: "jsnum \<Rightarrow> rat \<Rightarrow> jsnum" where
  "js_divide (Finite x) c = Finite (x / c)"
| "js_divide NaN c = NaN"
| "js_divide PosInf c = PosInf"
| "js_divide NegInf c = NegInf"

text \<open>The inner loop of \<open>decodeAudioData\<close> for one channel: \<open>i\<close> runs while
  \<open>i < frameCount\<close>, and \<open>frameCount\<close> is a quotient that need not be an integer.\<close>

definition fill_channel :: "int16 list \<Rightarrow> nat \<Rightarrow> rat \<Rightarrow> nat \<Rightarrow> jsnum list \<Rightarrow> jsnum list" where
  "fill_channel dataInt16 numChannels frameCount channel chData =
     fold (\<lambda>i cd. typed_store cd i (js_divide (int16_read dataInt16 (i * numChannels + channel)) 32768))
          [0..<nat \<lceil>frameCount\<rceil>] chData"

definition decodeAudioData :: "byte list \<Rightarrow> nat \<Rightarrow> nat \<Rightarrow> error + AudioBuffer" where
  "decodeAudioData bytes rate numChannels =
     (case Int16Array_of_buffer bytes of
        Inl e \<Rightarrow> Inl e
      | Inr dataInt16 \<Rightarrow>
          (let frameCount = of_nat (length dataInt16) / of_nat numChannels
           in case createBuffer numChannels frameCount rate of
                Inl e \<Rightarrow> Inl e
              | Inr buffer \<Rightarrow>
                  Inr (buffer\<lparr> channelData :=
                         map (\<lambda>channel. fill_channel dataInt16 numChannels frameCount channel
                                           (channelData buffer ! channel))
                             [0..<numChannels] \<rparr>)))"

section \<open>WAV container encoder\<close>

text \<open>The \<open>DataView\<close> over the output buffer, with the write cursor \<open>pos\<close> that
  \<open>setUint16\<close> and \<open>setUint32\<close> advance by the two or four bytes they write in
  little-endian order. A write outside the buffer throws a \<open>RangeError\<close>.\<close>

record wav_writer =
  view :: "byte list"
  pos :: nat

definition bytes_of_uint32 :: "32 word \<Rightarrow> byte list" where
  "bytes_of_uint32 w = [ucast w, ucast (drop_bit 8 w), ucast (drop_bit 16 w), ucast (drop_bit 24 w)]"

definition view_set :: "nat \<Rightarrow> byte list \<Rightarrow> byte list \<Rightarrow> error + byte list" where
  "view_set byteOffset bs v =
     (if byteOffset + length bs \<le> length v
      then Inr (take byteOffset v @ bs @ drop (byteOffset + length bs) v)
      else Inl RangeError)"

definition put_bytes :: "byte list \<Rightarrow> wav_writer \<Rightarrow> error + wav_writer" where
  "put_bytes bs w =
     (case view_set (pos w) bs (view w) of
        Inl e \<Rightarrow> Inl e
      | Inr v \<Rightarrow> Inr \<lparr> view = v, pos = pos w + length bs \<rparr>)"

definition setUint16 :: "nat \<Rightarrow> wav_writer \<Rightarrow> error + wav_writer" where
  "setUint16 d = put_bytes (bytes_of_int16 (of_nat d))"

definition setUint32 :: "nat \<Rightarrow> wav_writer \<Rightarrow> error + wav_writer" where
  "setUint32 d = put_bytes (bytes_of_uint32 (of_nat d))"

fun write_all :: "(wav_writer \<Rightarrow> error + wav_writer) list \<Rightarrow> wav_writer \<Rightarrow> error + wav_writer" where
  "write_all [] w = Inr w"
| "write_all (f # fs) w = (case f w of Inl e \<Rightarrow> Inl e | Inr w' \<Rightarrow> write_all fs w')"

text \<open>The header, field by field as the source writes it. \<open>len\<close> is the byte length of
  the whole file.\<close>

definition wav_header :: "AudioBuffer \<Rightarrow> nat \<Rightarrow> wav_writer \<Rightarrow> error + wav_writer" where
  "wav_header buffer len =
     (let numOfChan = numberOfChannels buffer
      in write_all
           [setUint32 0x46464952,
            setUint32 (len - 8),
            setUint32 0x45564157,
            setUint32 0x20746d66,
            setUint32 16,
            setUint16 1,
            setUint16 numOfChan,
            setUint32 (sampleRate buffer),
            setUint32 (sampleRate buffer * 2 * numOfChan),
            setUint16 (numOfChan * 2),
            setUint16 16,
            setUint32 0x61746164,
            (\<lambda>w. setUint32 (len - pos w - 4) w)])"

text \<open>The quantisation of one sample: the clamp, then the scaling and \<open>| 0\<close>. The test of
  the conditional is \<open>0.5 + sample < 0\<close>.\<close>

definition wav_sample :: "jsnum \<Rightarrow> 32 word" where
  "wav_sample x =
     (let sample = math_max (-1) (math_min 1 x)
      in to_int32 (if js_negative (js_plus (1/2) sample)
                   then js_times sample 32768 else js_times sample 32767))"

definition sample_at :: "jsnum list list \<Rightarrow> nat \<Rightarrow> nat \<Rightarrow> jsnum" where
  "sample_at chans i p = (if p < length (chans ! i) then chans ! i ! p else NaN)"

text \<open>The inner loop over the channels of one frame, and the outer loop over \<open>pos\<close>. The
  outer loop goes on from the value of \<open>pos\<close> that the header has left.\<close>

fun wav_frame :: "jsnum list list \<Rightarrow> nat \<Rightarrow> nat list \<Rightarrow> nat \<Rightarrow> byte list \<Rightarrow> error + nat \<times> byte list" where
  "wav_frame chans p [] offset v = Inr (offset, v)"
| "wav_frame chans p (i # is) offset v =
     (case view_set (44 + offset) (bytes_of_int16 (scast (wav_sample (sample_at chans i p)))) v of
        Inl e \<Rightarrow> Inl e
      | Inr v' \<Rightarrow> wav_frame chans p is (offset + 2) v')"

function wav_loop :: "jsnum list list \<Rightarrow> nat \<Rightarrow> nat \<Rightarrow> nat \<Rightarrow> nat \<Rightarrow> byte list \<Rightarrow> error + byte list" where
  "wav_loop chans numOfChan len p offset v =
     (if p < len
      then (case wav_frame chans p [0..<numOfChan] offset v of
              Inl e \<Rightarrow> Inl e
            | Inr (offset', v') \<Rightarrow> wav_loop chans numOfChan len (p + 1) offset' v')
      else Inr v)"
  by pat_completeness auto
termination
  by (relation "measure (\<lambda>(chans, numOfChan, len, p, offset, v). len - p)") auto

definition audioBufferToWav :: "AudioBuffer \<Rightarrow> error + byte list" where
  "audioBufferToWav buffer =
     (let numOfChan = numberOfChannels buffer;
          len = length_buf buffer * numOfChan * 2 + 44
      in case wav_header buffer len \<lparr> view = replicate len 0, pos = 0 \<rparr> of
           Inl e \<Rightarrow> Inl e
         | Inr w \<Rightarrow> wav_loop (channelData buffer) numOfChan (length_buf buffer) (pos w) 0 (view w))"

text \<open>Reading a little-endian field back from a byte buffer.\<close>

definition getUint16 :: "byte list \<Rightarrow> nat \<Rightarrow> nat" where
  "getUint16 v p = unat (v ! p) + 256 * unat (v ! (p + 1))"

definition getUint32 :: "byte list \<Rightarrow> nat \<Rightarrow> nat" where
  "getUint32 v p = unat (v ! p) + 256 * unat (v ! (p + 1)) + 65536 * unat (v ! (p + 2))
                   + 16777216 * unat (v ! (p + 3))"

text \<open>The twelve header fields that are written with constant arguments, as byte strings,
  and the bytes of an ASCII tag.\<close>

definition header_fields :: "AudioBuffer \<Rightarrow> nat \<Rightarrow> byte list list" where
  "header_fields buffer len =
     [bytes_of_uint32 0x46464952,
      bytes_of_uint32 (of_nat (len - 8)),
      bytes_of_uint32 0x45564157,
      bytes_of_uint32 0x20746d66,
      bytes_of_uint32 16,
      bytes_of_int16 1,
      bytes_of_int16 (of_nat (numberOfChannels buffer)),
      bytes_of_uint32 (of_nat (sampleRate buffer)),
      bytes_of_uint32 (of_nat (sampleRate buffer * 2 * numberOfChannels buffer)),
      bytes_of_int16 (of_nat (numberOfChannels buffer * 2)),
      bytes_of_int16 16,
      bytes_of_uint32 0x61746164]"

definition ascii_bytes :: "string \<Rightarrow> byte list" where
  "ascii_bytes s = map (\<lambda>c. of_nat (of_char c)) s"

section \<open>Chunker\<close>

text \<open>
  \<open>splitAudio\<close> decodes the file, and the host renders the decoded buffer at the target
  rate into one channel. The decoded buffer is the argument \<open>audioBuffer\<close>; the renderer
  is the argument \<open>render\<close>, a function of the number of frames requested, which is the
  duration times the target rate, truncated (the host refuses a length of zero, as the
  constructor of an \<open>AudioBuffer\<close> does). A produced file is named
  \<open>compressed_<base>.wav\<close> or \<open>_part<k>.wav\<close>; the model keeps, beside the bytes of the
  file, the samples that were encoded into it. The chunk duration and the target rate are
  arguments of \<open>splitAudio_with\<close>; \<open>splitAudio\<close> fixes them to the constants of the source.
\<close>

definition TARGET_SAMPLE_RATE :: nat where
  "TARGET_SAMPLE_RATE = 16000"

definition CHUNK_DURATION_SEC :: nat where
  "CHUNK_DURATION_SEC = 300"

datatype file_name = Compressed | Part nat

record File =
  fileName :: file_name
  chunkData :: "jsnum list"
  wavBytes :: "byte list"

definition audioDataToWavFile :: "jsnum list \<Rightarrow> nat \<Rightarrow> file_name \<Rightarrow> error + File" where
  "audioDataToWavFile chData rate fname =
     (if length chData = 0 then Inl NotSupportedError
      else case audioBufferToWav \<lparr> sampleRate = rate, length_buf = length chData,
                                    channelData = [chData] \<rparr> of
             Inl e \<Rightarrow> Inl e
           | Inr bytes \<Rightarrow> Inr \<lparr> fileName = fname, chunkData = chData, wavBytes = bytes \<rparr>)"

definition render_offline :: "(nat \<Rightarrow> jsnum list) \<Rightarrow> rat \<Rightarrow> nat \<Rightarrow> error + jsnum list" where
  "render_offline render dur rate =
     (let n = nat \<lfloor>dur * of_nat rate\<rfloor>
      in if n = 0 then Inl NotSupportedError else Inr (render n))"

definition compressAudio :: "(nat \<Rightarrow> jsnum list) \<Rightarrow> nat \<Rightarrow> AudioBuffer \<Rightarrow> error + File" where
  "compressAudio render rate audioBuffer =
     (case render_offline render (duration audioBuffer) rate of
        Inl e \<Rightarrow> Inl e
      | Inr rendered \<Rightarrow>
          (case audioBufferToWav \<lparr> sampleRate = rate, length_buf = length rendered,
                                   channelData = [rendered] \<rparr> of
             Inl e \<Rightarrow> Inl e
           | Inr bytes \<Rightarrow> Inr \<lparr> fileName = Compressed, chunkData = rendered, wavBytes = bytes \<rparr>))"

function split_loop :: "nat \<Rightarrow> nat \<Rightarrow> jsnum list \<Rightarrow> nat \<Rightarrow> nat \<Rightarrow> File list \<Rightarrow> error + File list" where
  "split_loop rate samplesPerChunk pcmData startSample partIndex chunks =
     (if startSample < length pcmData
      then (let endSample = min (startSample + samplesPerChunk) (length pcmData);
                chData = take (endSample - startSample) (drop startSample pcmData)
            in case audioDataToWavFile chData rate (Part partIndex) of
                 Inl e \<Rightarrow> Inl e
               | Inr chunkFile \<Rightarrow>
                   split_loop rate samplesPerChunk pcmData endSample (partIndex + 1)
                     (chunks @ [chunkFile]))
      else Inr chunks)"
  by pat_completeness auto
termination
  by (relation "measure (\<lambda>(rate, samplesPerChunk, pcmData, startSample, partIndex, chunks).
                  length pcmData - startSample)")
     (auto simp: audioDataToWavFile_def min_def split: if_splits)

definition splitAudio_with :: "nat \<Rightarrow> nat \<Rightarrow> (nat \<Rightarrow> jsnum list) \<Rightarrow> AudioBuffer \<Rightarrow> error + File list" where
  "splitAudio_with chunkDurationSec rate render audioBuffer =
     (if duration audioBuffer \<le> of_nat chunkDurationSec
      then (case compressAudio render rate audioBuffer of
              Inl e \<Rightarrow> Inl e
            | Inr f \<Rightarrow> Inr [f])
      else (case render_offline render (duration audioBuffer) rate of
              Inl e \<Rightarrow> Inl e
            | Inr pcmData \<Rightarrow> split_loop rate (chunkDurationSec * rate) pcmData 0 1 []))"

definition splitAudio :: "(nat \<Rightarrow> jsnum list) \<Rightarrow> AudioBuffer \<Rightarrow> error + File list" where
  "splitAudio = splitAudio_with CHUNK_DURATION_SEC TARGET_SAMPLE_RATE"

section \<open>Playback scheduler\<close>

text \<open>
  The scheduler state of a live session: the cursor \<open>nextStartTimeRef\<close> and the set
  \<open>sourcesRef\<close> of scheduled source nodes. A source node is named by the number of nodes
  created before it; the set is kept in insertion order. The calls \<open>source.start(when)\<close>
  and \<open>src.stop()\<close> are recorded as events, a start together with the duration of the
  node's buffer. Times are rational numbers of seconds.
\<close>

datatype playback_event = Start nat rat rat | Stop nat

record scheduler =
  nextStartTime :: rat
  sources :: "nat list"
  created :: nat
  events :: "playback_event list"

record server_message =
  interrupted :: bool
  base64Audio :: "string option"

definition scheduler_init :: scheduler where
  "scheduler_init = \<lparr> nextStartTime = 0, sources = [], created = 0, events = [] \<rparr>"

definition interrupt :: "scheduler \<Rightarrow> scheduler" where
  "interrupt st = st\<lparr> nextStartTime := 0, sources := [],
                       events := events st @ map Stop (sources st) \<rparr>"

definition schedule_audio :: "rat \<Rightarrow> string \<Rightarrow> scheduler \<Rightarrow> scheduler" where
  "schedule_audio currentTime b64 st =
     (let st1 = (if nextStartTime st < currentTime then st\<lparr> nextStartTime := currentTime \<rparr> else st)
      in case decodeAudio b64 of
           Inl e \<Rightarrow> st1
         | Inr audioBytes \<Rightarrow>
             (case decodeAudioData audioBytes 24000 1 of
                Inl e \<Rightarrow> st1
              | Inr audioBuffer \<Rightarrow>
                  st1\<lparr> nextStartTime := nextStartTime st1 + duration audioBuffer,
                       sources := sources st1 @ [created st1],
                       created := created st1 + 1,
                       events := events st1
                         @ [Start (created st1) (nextStartTime st1) (duration audioBuffer)] \<rparr>))"

definition handleServerMessage :: "rat option \<Rightarrow> server_message \<Rightarrow> scheduler \<Rightarrow> scheduler" where
  "handleServerMessage outputCtx message st =
     (case outputCtx of
        None \<Rightarrow> st
      | Some currentTime \<Rightarrow>
          (let st1 = (if interrupted message then interrupt st else st)
           in case base64Audio message of
                None \<Rightarrow> st1
              | Some b64 \<Rightarrow> if b64 = [] then st1 else schedule_audio currentTime b64 st1))"

definition source_ended :: "nat \<Rightarrow> scheduler \<Rightarrow> scheduler" where
  "source_ended source st = st\<lparr> sources := removeAll source (sources st) \<rparr>"

text \<open>The messages of a session in their order of arrival, each with the clock of the
  output context at its arrival; and the items started, with their durations, among a list
  of events.\<close>

fun handle_all :: "(rat \<times> server_message) list \<Rightarrow> scheduler \<Rightarrow> scheduler" where
  "handle_all [] st = st"
| "handle_all ((currentTime, message) # rest) st =
     handle_all rest (handleServerMessage (Some currentTime) message st)"

fun started :: "playback_event list \<Rightarrow> (rat \<times> rat) list" where
  "started [] = []"
| "started (Start source startAt d # es) = (startAt, d) # started es"
| "started (Stop source # es) = started es"

text \<open>Each item of a list of (start time, duration) pairs ends before the next one starts.\<close>

fun chain_ok :: "(rat \<times> rat) list \<Rightarrow> bool" where
  "chain_ok [] = True"
| "chain_ok [p] = True"
| "chain_ok (p # q # rest) = (fst p + snd p \<le> fst q \<and> chain_ok (q # rest))"

section \<open>Sequential dispatcher\<close>




























section \<open>The quantisation rule in the words of the specification\<close>

text \<open>Clamp the sample to \<open>[-1, 1]\<close>, scale by \<open>32767\<close> if the result is non-negative
  and by \<open>32768\<close> if it is negative, truncate to an integer.\<close>

definition spec_quantize :: "rat \<Rightarrow> int" where
  "spec_quantize s =
     (let c = max (-1) (min 1 s) in trunc (if 0 \<le> c then c * 32767 else c * 32768))"

section \<open>Properties of the codec\<close>

lemma b64_table: "\<forall>n \<in> set [0..<64]. b64_index (b64_char n) = Some n
    \<and> b64_char n \<noteq> CHR ''='' \<and> \<not> is_ascii_whitespace (b64_char n)"
  by code_simp

lemma b64_index_char: "n < 64 \<Longrightarrow> b64_index (b64_char n) = Some n"
  using b64_table by simp

lemma b64_char_not_pad: "n < 64 \<Longrightarrow> b64_char n \<noteq> CHR ''=''"
  using b64_table by simp

lemma b64_char_not_space: "n < 64 \<Longrightarrow> \<not> is_ascii_whitespace (b64_char n)"
  using b64_table by simp

lemma sextet_hi: "a < 256 \<Longrightarrow> a div 4 < (64::nat)"
  by simp

lemma sextet_mid1: "b < 256 \<Longrightarrow> (a mod 4) * 16 + b div 16 < (64::nat)"
proof -
  assume "b < 256"
  then have "b div 16 < 16" by simp
  moreover have "a mod 4 < 4" by simp
  ultimately show ?thesis by linarith
qed

lemma sextet_mid2: "c < 256 \<Longrightarrow> (b mod 16) * 4 + c div 64 < (64::nat)"
proof -
  assume "c < 256"
  then have "c div 64 < 4" by simp
  moreover have "b mod 16 < 16" by simp
  ultimately show ?thesis by linarith
qed

lemma sextet_lo2: "(b mod 16) * 4 < (64::nat)"
proof -
  have "b mod 16 < 16" by simp
  then show ?thesis by linarith
qed

lemma sextet_lo1: "(a mod 4) * 16 < (64::nat)"
proof -
  have "a mod 4 < 4" by simp
  then show ?thesis by linarith
qed

lemma octet1: "b < 256 \<Longrightarrow> (a div 4) * 4 + ((a mod 4) * 16 + b div 16) div 16 = (a::nat)"
  by (simp add: div_mult2_eq[symmetric])

lemma octet2:
  "b < 256 \<Longrightarrow> c < 256 \<Longrightarrow>
   (((a mod 4) * 16 + b div 16) mod 16) * 16 + ((b mod 16) * 4 + c div 64) div 4 = (b::nat)"
  by (simp add: div_mult2_eq[symmetric])

lemma octet3: "c < 256 \<Longrightarrow> (((b mod 16) * 4 + c div 64) mod 4) * 64 + c mod 64 = (c::nat)"
  by (simp add: div_mult2_eq[symmetric])

lemma octet2_last:
  "b < 256 \<Longrightarrow> (((a mod 4) * 16 + b div 16) mod 16) * 16 + ((b mod 16) * 4) div 4 = (b::nat)"
  by (simp add: div_mult2_eq[symmetric])

lemma octet1_last: "(a div 4) * 4 + ((a mod 4) * 16) div 16 = (a::nat)"
  by simp

lemma encode_sextets_bound:
  "\<forall>x \<in> set bs. x < 256 \<Longrightarrow> \<forall>y \<in> set (encode_sextets bs). y < 64"
proof (induction bs rule: encode_sextets.induct)
  case (1 a b c rest)
  then show ?case
    by (simp add: sextet_hi sextet_mid1 sextet_mid2)
next
  case (2 a b)
  then show ?case
    by (simp add: sextet_hi sextet_mid1 sextet_lo2)
next
  case (3 a)
  then show ?case
    by (simp add: sextet_hi sextet_lo1)
next
  case 4
  then show ?case by simp
qed

lemma decode_encode_sextets:
  "\<forall>x \<in> set bs. x < 256 \<Longrightarrow> decode_sextets (encode_sextets bs) = bs"
proof (induction bs rule: encode_sextets.induct)
  case (1 a b c rest)
  have abc: "a < 256" "b < 256" "c < 256" and rest: "\<forall>x \<in> set rest. x < 256"
    using "1.prems" by simp_all
  have "decode_sextets (encode_sextets (a # b # c # rest))
      = [(a div 4) * 4 + ((a mod 4) * 16 + b div 16) div 16,
         (((a mod 4) * 16 + b div 16) mod 16) * 16 + ((b mod 16) * 4 + c div 64) div 4,
         (((b mod 16) * 4 + c div 64) mod 4) * 64 + c mod 64] @ decode_sextets (encode_sextets rest)"
    by (simp only: encode_sextets.simps decode_sextets.simps append_Cons append_Nil)
  also have "\<dots> = [a, b, c] @ rest"
    by (simp only: octet1 [OF abc(2)] octet2 [OF abc(2) abc(3)] octet3 [OF abc(3)] "1.IH" [OF rest])
  finally show ?case by simp
next
  case (2 a b)
  have ab: "a < 256" "b < 256"
    using "2.prems" by simp_all
  have "decode_sextets (encode_sextets [a, b])
      = [(a div 4) * 4 + ((a mod 4) * 16 + b div 16) div 16,
         (((a mod 4) * 16 + b div 16) mod 16) * 16 + ((b mod 16) * 4) div 4]"
    by (simp only: encode_sextets.simps decode_sextets.simps)
  also have "\<dots> = [a, b]"
    by (simp only: octet1 [OF ab(2)] octet2_last [OF ab(2)])
  finally show ?case .
next
  case (3 a)
  have "decode_sextets (encode_sextets [a]) = [(a div 4) * 4 + ((a mod 4) * 16) div 16]"
    by (simp only: encode_sextets.simps decode_sextets.simps)
  then show ?case
    by (simp only: octet1_last)
next
  case 4
  then show ?case by simp
qed

lemma mod3_step: "Suc (Suc (Suc n)) mod 3 = n mod 3"
proof -
  have "Suc (Suc (Suc n)) = n + 3" by simp
  then show ?thesis by (simp only: mod_add_self2)
qed

lemma pad_count_eq: "(3 - length bs mod 3) mod 3 = pad_count bs"
  by (induction bs rule: pad_count.induct) (simp_all add: mod3_step)

lemma pad_count_le: "pad_count bs \<le> 2"
  by (induction bs rule: pad_count.induct) simp_all

lemma encode_sextets_length: "(length (encode_sextets bs) + pad_count bs) mod 4 = 0"
  by (induction bs rule: encode_sextets.induct) simp_all

lemma encode_sextets_length_not1: "length (encode_sextets bs) mod 4 \<noteq> 1"
  by (induction bs rule: encode_sextets.induct) simp_all

lemma strip_padding_body:
  assumes "length (body @ replicate k (CHR ''='')) mod 4 = 0" and "k \<le> 2"
    and "\<forall>c \<in> set body. c \<noteq> CHR ''=''"
  shows "strip_padding (body @ replicate k (CHR ''='')) = body"
proof -
  have nl: "body \<noteq> [] \<Longrightarrow> last body \<noteq> CHR ''=''"
    using assms(3) last_in_set by blast
  consider "k = 0" | "k = 1" | "k = 2" using assms(2) by linarith
  then show ?thesis
  proof cases
    case 1
    then show ?thesis using nl by (auto simp: strip_padding_def)
  next
    case 2
    then show ?thesis using nl assms(1) by (auto simp: strip_padding_def Let_def)
  next
    case 3
    then have r: "replicate k (CHR ''='') = [CHR ''='', CHR ''='']"
      by (simp add: numeral_2_eq_2)
    have "butlast (body @ [CHR ''='', CHR ''='']) = body @ [CHR ''='']"
      by (simp add: butlast_append)
    then show ?thesis using assms(1) unfolding r
      by (simp add: strip_padding_def Let_def)
  qed
qed

lemma those_map_Some: "those (map Some xs) = Some xs"
  by (induction xs) simp_all

lemma atob_btoa: "atob (btoa s) = Inr s"
proof -
  let ?bs = "map of_char s :: nat list"
  let ?sx = "encode_sextets ?bs"
  let ?body = "map b64_char ?sx"
  have k: "(3 - length s mod 3) mod 3 = pad_count ?bs"
    using pad_count_eq [of ?bs] by simp
  have bs: "\<forall>x \<in> set ?bs. x < 256" by auto
  have sx: "\<forall>y \<in> set ?sx. y < 64"
    by (rule encode_sextets_bound [OF bs])
  have body_pad: "\<forall>c \<in> set ?body. c \<noteq> CHR ''=''"
    using sx b64_char_not_pad by auto
  have body_space: "\<forall>c \<in> set ?body. \<not> is_ascii_whitespace c"
    using sx b64_char_not_space by auto
  have pad_space: "\<not> is_ascii_whitespace (CHR ''='')"
    by (simp add: is_ascii_whitespace_def)
  have btoa: "btoa s = ?body @ replicate (pad_count ?bs) (CHR ''='')"
    unfolding btoa_def k ..
  have filt: "filter (\<lambda>c. \<not> is_ascii_whitespace c) (btoa s) = btoa s"
    unfolding btoa using body_space pad_space by (auto simp: filter_id_conv)
  have len: "length (?body @ replicate (pad_count ?bs) (CHR ''='')) mod 4 = 0"
    using encode_sextets_length [of ?bs] by simp
  have strip: "strip_padding (btoa s) = ?body"
    unfolding btoa by (rule strip_padding_body [OF len pad_count_le body_pad])
  have len_body: "length ?body mod 4 \<noteq> 1"
    using encode_sextets_length_not1 [of ?bs] by simp
  have idx: "map b64_index ?body = map Some ?sx"
    using sx b64_index_char by simp
  have dec: "decode_sextets ?sx = ?bs"
    by (rule decode_encode_sextets [OF bs])
  have chars: "map char_of ?bs = s"
    by (simp add: map_idI)
  have th: "those (map b64_index ?body) = Some ?sx"
    unfolding idx by (rule those_map_Some)
  show ?thesis
    unfolding atob_def filt strip Let_def th using len_body dec chars
    by (simp del: length_map map_map)
qed

lemma unat_byte: "unat (b :: byte) < 256"
  using unsigned_less [of b] by simp

lemma byte_of_char_of: "of_nat (of_char (char_of (unat (b :: byte)) :: char)) = b"
  by (simp add: unat_byte)

lemma decode_encode_bytes: "decodeAudio (encodeAudio b) = Inr b"
proof -
  have "map (\<lambda>c. of_nat (of_char c)) (map (\<lambda>x. char_of (unat x)) b) = b"
    unfolding map_map o_def byte_of_char_of by simp
  then show ?thesis
    unfolding decodeAudio_def encodeAudio_def atob_btoa by simp
qed

text \<open>
  Claim C3. For every byte sequence \<open>b\<close>, the empty one and those holding every byte value
  included, decoding the encoding of \<open>b\<close> succeeds and gives \<open>b\<close> back.
\<close>

theorem decodeAudio_encodeAudio: "decodeAudio (encodeAudio b) = Inr b"
  by (rule decode_encode_bytes)

section \<open>Properties of the capture encoder\<close>

lemma int16_le_roundtrip:
  "ucast (ucast w :: byte) OR push_bit 8 (ucast (ucast (drop_bit 8 w) :: byte)) = (w :: int16)"
  by (rule bit_word_eqI) (auto simp: bit_simps)

lemma int16s_of_bytes_of_int16s: "int16s_of_bytes (Uint8Array_of_int16s ws) = ws"
  by (induction ws) (simp_all add: Uint8Array_of_int16s_def bytes_of_int16_def int16_le_roundtrip)

lemma sint_int16_of_int: "sint (word_of_int k :: int16) = (k + 32768) mod 65536 - 32768"
  by (simp add: sint_sbintrunc' signed_take_bit_eq_take_bit_shift take_bit_eq_mod)

lemma sint_to_int16: "sint (to_int16 (Finite x)) = (trunc x + 32768) mod 65536 - 32768"
  by (simp add: to_int16_def sint_int16_of_int)

lemma spec_quantize_negative: "-1 \<le> s \<Longrightarrow> s \<le> 0 \<Longrightarrow> spec_quantize s = trunc (s * 32768)"
  by (auto simp: spec_quantize_def trunc_def min_def max_def)

lemma trunc_negative_range:
  assumes "-1 \<le> s" and "s \<le> 0"
  shows "-32768 \<le> trunc (s * 32768)" and "trunc (s * 32768) \<le> 0"
proof -
  have "- 32768 \<le> s * 32768" "s * 32768 \<le> 0"
    using assms by simp_all
  then show "-32768 \<le> trunc (s * 32768)" and "trunc (s * 32768) \<le> 0"
    unfolding trunc_def by (auto simp: le_ceiling_iff ceiling_le_iff le_floor_iff floor_le_iff)
qed

lemma pcm_sample_negative:
  assumes "-1 \<le> s" and "s \<le> 0"
  shows "sint (to_int16 (Finite (s * 32768))) = spec_quantize s"
proof -
  have "(trunc (s * 32768) + 32768) mod 65536 = trunc (s * 32768) + 32768"
    using trunc_negative_range [OF assms] by simp
  then show ?thesis
    by (simp add: sint_to_int16 spec_quantize_negative [OF assms])
qed

lemma nonfinite_samples: "createPcmBlob_int16 [NaN, PosInf, NegInf] = [0, 0, 0]"
  by (simp add: createPcmBlob_int16_def to_int16_def)

text \<open>
  Claim C9. \<open>createPcmBlob\<close> stores, for every finite sample \<open>s\<close>, the truncation of
  \<open>s * 32768\<close> reduced modulo \<open>2^16\<close> into the signed 16-bit slot, without clamping: the
  sample \<open>1.0\<close> is stored as \<open>-32768\<close>, and samples outside \<open>[-1, 1]\<close> wrap around.
  The three samples that are not finite are stored as \<open>0\<close>.
\<close>

theorem createPcmBlob_wraps:
  "map sint (createPcmBlob_int16 (map Finite ss))
     = map (\<lambda>s. (trunc (s * 32768) + 32768) mod 65536 - 32768) ss
   \<and> map sint (createPcmBlob_int16 [Finite 1, Finite (3/2), Finite (-3/2)]) = [-32768, -16384, 16384]
   \<and> createPcmBlob_int16 [NaN, PosInf, NegInf] = [0, 0, 0]"
proof (intro conjI)
  show "map sint (createPcmBlob_int16 (map Finite ss))
     = map (\<lambda>s. (trunc (s * 32768) + 32768) mod 65536 - 32768) ss"
    by (simp add: createPcmBlob_int16_def o_def sint_to_int16)
  show "map sint (createPcmBlob_int16 [Finite 1, Finite (3/2), Finite (-3/2)]) = [-32768, -16384, 16384]"
    by code_simp
  show "createPcmBlob_int16 [NaN, PosInf, NegInf] = [0, 0, 0]"
    by (rule nonfinite_samples)
qed

text \<open>
  Claim C2, as stated, fails: the capture encoder does not quantise by the rule of the WAV
  encoder. At the samples \<open>0.5\<close> and \<open>1.0\<close> it stores \<open>16384\<close> and \<open>-32768\<close>, where
  the rule of the specification and the WAV encoder both give \<open>16383\<close> and \<open>32767\<close>.
\<close>

theorem createPcmBlob_differs_from_rule:
  "map sint (createPcmBlob_int16 [Finite (1/2), Finite 1]) = [16384, -32768]
   \<and> map spec_quantize [1/2, 1] = [16383, 32767]
   \<and> map (\<lambda>x. sint (wav_sample x)) [Finite (1/2), Finite 1] = [16383, 32767]"
  by code_simp

text \<open>
  Claim C2, amended. For every captured frame the packet has the mime type
  \<open>audio/pcm;rate=16000\<close> and its data decodes to the little-endian bytes of one signed
  16-bit value per sample; for a finite sample \<open>s\<close> that value is the truncation of
  \<open>s * 32768\<close> reduced modulo \<open>2^16\<close>, which is the value of the rule (clamp, scale by
  \<open>32767\<close> or \<open>32768\<close>, truncate) for \<open>-1 \<le> s \<le> 0\<close>.
\<close>

theorem createPcmBlob_packet:
  "mimeType (createPcmBlob samples) = ''audio/pcm;rate=16000''
   \<and> (\<exists>bytes. decodeAudio (data (createPcmBlob samples)) = Inr bytes
               \<and> int16s_of_bytes bytes = createPcmBlob_int16 samples)
   \<and> length (createPcmBlob_int16 samples) = length samples
   \<and> (\<forall>i s. i < length samples \<and> samples ! i = Finite s \<longrightarrow>
         sint (createPcmBlob_int16 samples ! i) = (trunc (s * 32768) + 32768) mod 65536 - 32768
         \<and> (-1 \<le> s \<and> s \<le> 0 \<longrightarrow> sint (createPcmBlob_int16 samples ! i) = spec_quantize s))"
proof (intro conjI allI impI)
  show "mimeType (createPcmBlob samples) = ''audio/pcm;rate=16000''"
    by (simp add: createPcmBlob_def)
  show "\<exists>bytes. decodeAudio (data (createPcmBlob samples)) = Inr bytes
               \<and> int16s_of_bytes bytes = createPcmBlob_int16 samples"
    by (simp add: createPcmBlob_def decode_encode_bytes int16s_of_bytes_of_int16s)
  show "length (createPcmBlob_int16 samples) = length samples"
    by (simp add: createPcmBlob_int16_def)
next
  fix i s
  assume "i < length samples \<and> samples ! i = Finite s"
  then show "sint (createPcmBlob_int16 samples ! i) = (trunc (s * 32768) + 32768) mod 65536 - 32768"
    by (simp add: createPcmBlob_int16_def sint_to_int16)
next
  fix i s
  assume "i < length samples \<and> samples ! i = Finite s" and "-1 \<le> s \<and> s \<le> 0"
  then show "sint (createPcmBlob_int16 samples ! i) = spec_quantize s"
    by (simp add: createPcmBlob_int16_def pcm_sample_negative)
qed

theorem createPcmBlob_packet_witness:
  "mimeType (createPcmBlob [Finite (- (1/2)), Finite 1]) = ''audio/pcm;rate=16000''
   \<and> sint (createPcmBlob_int16 [Finite (- (1/2)), Finite 1] ! 0) = spec_quantize (- (1/2))
   \<and> sint (createPcmBlob_int16 [Finite (- (1/2)), Finite 1] ! 1) = - 32768"
proof -
  let ?frame = "[Finite (- (1/2)), Finite 1]"
  note packet = createPcmBlob_packet [of ?frame]
  have all: "\<forall>i s. i < length ?frame \<and> ?frame ! i = Finite s \<longrightarrow>
         sint (createPcmBlob_int16 ?frame ! i) = (trunc (s * 32768) + 32768) mod 65536 - 32768
         \<and> (-1 \<le> s \<and> s \<le> 0 \<longrightarrow> sint (createPcmBlob_int16 ?frame ! i) = spec_quantize s)"
    using packet by blast
  have "sint (createPcmBlob_int16 ?frame ! 0) = spec_quantize (- (1/2))"
    using all [rule_format, of 0 "- (1/2)"] by simp
  moreover have "sint (createPcmBlob_int16 ?frame ! 1) = (trunc (1 * 32768) + 32768) mod 65536 - 32768"
    using all [rule_format, of 1 1] by simp
  then have "sint (createPcmBlob_int16 ?frame ! 1) = - 32768"
    by (simp add: trunc_def)
  moreover have "mimeType (createPcmBlob ?frame) = ''audio/pcm;rate=16000''"
    using packet by blast
  ultimately show ?thesis by blast
qed

section \<open>Properties of the WAV encoder\<close>

lemma view_set_length: "view_set p bs v = Inr v' \<Longrightarrow> length v' = length v"
  by (auto simp: view_set_def split: if_splits)

lemma view_set_take: "view_set p bs v = Inr v' \<Longrightarrow> k \<le> p \<Longrightarrow> take k v' = take k v"
  by (auto simp: view_set_def split: if_splits)

lemma view_set_ok: "p + length bs \<le> length v \<Longrightarrow> \<exists>v'. view_set p bs v = Inr v'"
  by (simp add: view_set_def)

lemma bytes_of_int16_length: "length (bytes_of_int16 w) = 2"
  by (simp add: bytes_of_int16_def)

lemma bytes_of_uint32_length: "length (bytes_of_uint32 w) = 4"
  by (simp add: bytes_of_uint32_def)

lemma wav_frame_ok:
  "44 + offset + 2 * length is \<le> length v \<Longrightarrow>
   \<exists>v'. wav_frame chans p is offset v = Inr (offset + 2 * length is, v')
        \<and> length v' = length v \<and> take 44 v' = take 44 v"
proof (induction "is" arbitrary: offset v)
  case Nil
  then show ?case by simp
next
  case (Cons i "is")
  let ?bs = "bytes_of_int16 (scast (wav_sample (sample_at chans i p)))"
  have "44 + offset + length ?bs \<le> length v"
    using Cons.prems by (simp add: bytes_of_int16_length)
  then obtain v1 where v1: "view_set (44 + offset) ?bs v = Inr v1"
    using view_set_ok by blast
  have l1: "length v1 = length v" and t1: "take 44 v1 = take 44 v"
    using view_set_length [OF v1] view_set_take [OF v1, of 44] by simp_all
  have "44 + (offset + 2) + 2 * length is \<le> length v1"
    using Cons.prems l1 by simp
  from Cons.IH [OF this] obtain v' where
    "wav_frame chans p is (offset + 2) v1 = Inr (offset + 2 + 2 * length is, v')"
    "length v' = length v1" "take 44 v' = take 44 v1"
    by blast
  then show ?case using v1 l1 t1 by simp
qed

lemma wav_loop_ok:
  "44 + offset + 2 * numOfChan * (len - p) \<le> length v \<Longrightarrow>
   \<exists>v'. wav_loop chans numOfChan len p offset v = Inr v'
        \<and> length v' = length v \<and> take 44 v' = take 44 v"
proof (induction chans numOfChan len p offset v rule: wav_loop.induct)
  case (1 chans numOfChan len p offset v)
  show ?case
  proof (cases "p < len")
    case False
    then show ?thesis by simp
  next
    case True
    then have split: "len - p = Suc (len - (p + 1))" by simp
    have room: "44 + offset + 2 * length [0..<numOfChan] \<le> length v"
      using "1.prems" unfolding split by simp
    from wav_frame_ok [OF room, of chans p] obtain v1 where
      f: "wav_frame chans p [0..<numOfChan] offset v = Inr (offset + 2 * numOfChan, v1)"
      and l1: "length v1 = length v" and t1: "take 44 v1 = take 44 v"
      by auto
    have "44 + (offset + 2 * numOfChan) + 2 * numOfChan * (len - (p + 1)) \<le> length v1"
      using "1.prems" l1 unfolding split by simp
    from "1.IH" [OF True f refl this] obtain v' where
      "wav_loop chans numOfChan len (p + 1) (offset + 2 * numOfChan) v1 = Inr v'"
      "length v' = length v1" "take 44 v' = take 44 v1"
      by blast
    then show ?thesis using True f l1 t1 by simp
  qed
qed

lemma put_all:
  "p + length (concat bss) \<le> length v \<Longrightarrow>
   write_all (map put_bytes bss) \<lparr> view = v, pos = p \<rparr>
   = Inr \<lparr> view = take p v @ concat bss @ drop (p + length (concat bss)) v,
           pos = p + length (concat bss) \<rparr>"
proof (induction bss arbitrary: v p)
  case Nil
  then show ?case by simp
next
  case (Cons bs bss)
  let ?v1 = "take p v @ bs @ drop (p + length bs) v"
  have step: "put_bytes bs \<lparr> view = v, pos = p \<rparr> = Inr \<lparr> view = ?v1, pos = p + length bs \<rparr>"
    using Cons.prems by (simp add: put_bytes_def view_set_def)
  have room: "p + length bs + length (concat bss) \<le> length ?v1"
    using Cons.prems by simp
  have tk: "take (p + length bs) ?v1 = take p v @ bs"
    using Cons.prems by simp
  have dr: "drop (p + length bs + length (concat bss)) ?v1 = drop (p + length bs + length (concat bss)) v"
    using Cons.prems by (simp add: ac_simps)
  show ?case
    using Cons.IH [OF room] step tk dr by (simp add: add.assoc)
qed


lemma write_all_append:
  "write_all (fs @ gs) w = (case write_all fs w of Inl e \<Rightarrow> Inl e | Inr w' \<Rightarrow> write_all gs w')"
  by (induction fs arbitrary: w) (auto split: sum.splits)

lemma header_fields_length: "length (concat (header_fields buffer len)) = 40"
  by (simp add: header_fields_def bytes_of_uint32_length bytes_of_int16_length)

lemma wav_header_result:
  assumes "44 \<le> len"
  shows "wav_header buffer len \<lparr> view = replicate len 0, pos = 0 \<rparr>
       = Inr \<lparr> view = concat (header_fields buffer len) @ bytes_of_uint32 (of_nat (len - 44))
                       @ replicate (len - 44) 0,
               pos = 44 \<rparr>"
proof -
  let ?hf = "header_fields buffer len"
  let ?last = "\<lambda>w. setUint32 (len - pos w - 4) w"
  have list: "wav_header buffer len = write_all (map put_bytes ?hf @ [?last])"
    by (simp add: wav_header_def header_fields_def Let_def setUint32_def setUint16_def)
  have "0 + length (concat ?hf) \<le> length (replicate len (0 :: byte))"
    using assms by (simp add: header_fields_length)
  from put_all [OF this]
  have first: "write_all (map put_bytes ?hf) \<lparr> view = replicate len 0, pos = 0 \<rparr>
      = Inr \<lparr> view = concat ?hf @ replicate (len - 40) 0, pos = 40 \<rparr>"
    by (simp add: header_fields_length)
  let ?v1 = "concat ?hf @ replicate (len - 40) (0 :: byte)"
  let ?b = "bytes_of_uint32 (of_nat (len - 44))"
  have "40 + length (concat [?b]) \<le> length ?v1"
    using assms by (simp add: header_fields_length bytes_of_uint32_length)
  from put_all [OF this]
  have "write_all [put_bytes ?b] \<lparr> view = ?v1, pos = 40 \<rparr>
      = Inr \<lparr> view = take 40 ?v1 @ ?b @ drop 44 ?v1, pos = 44 \<rparr>"
    by (simp add: bytes_of_uint32_length)
  moreover have "take 40 ?v1 = concat ?hf"
    by (simp add: header_fields_length)
  moreover have "drop 44 ?v1 = replicate (len - 44) 0"
    by (simp add: header_fields_length)
  ultimately have last: "?last \<lparr> view = ?v1, pos = 40 \<rparr>
      = Inr \<lparr> view = concat ?hf @ ?b @ replicate (len - 44) 0, pos = 44 \<rparr>"
    by (simp add: setUint32_def split: sum.splits)
  show ?thesis
    unfolding list write_all_append first using last by simp
qed

lemma nat_le32:
  assumes "n < 4294967296"
  shows "n mod 256 + 256 * (n div 256 mod 256) + 65536 * (n div 65536 mod 256)
         + 16777216 * (n div 16777216 mod 256) = (n :: nat)"
proof -
  have a: "n mod 65536 = 256 * (n div 256 mod 256) + n mod 256"
    using mod_mult2_eq [of n 256 256] by simp
  have b: "n mod 16777216 = 65536 * (n div 65536 mod 256) + n mod 65536"
    using mod_mult2_eq [of n 65536 256] by simp
  have c: "n mod 4294967296 = 16777216 * (n div 16777216 mod 256) + n mod 16777216"
    using mod_mult2_eq [of n 16777216 256] by simp
  have "n mod 4294967296 = n" using assms by simp
  with a b c show ?thesis by linarith
qed

lemma nat_le16:
  assumes "n < 65536"
  shows "n mod 256 + 256 * (n div 256 mod 256) = (n :: nat)"
proof -
  have a: "n mod 65536 = 256 * (n div 256 mod 256) + n mod 256"
    using mod_mult2_eq [of n 256 256] by simp
  have "n mod 65536 = n" using assms by simp
  with a show ?thesis by linarith
qed

lemma unat_byte_of_uint32: "unat (ucast (drop_bit k (w :: 32 word)) :: byte) = unat w div 2 ^ k mod 256"
  unfolding unsigned_ucast_eq unat_drop_bit_eq by (simp add: take_bit_eq_mod drop_bit_eq_div)

lemma unat_byte_of_int16: "unat (ucast (drop_bit k (w :: int16)) :: byte) = unat w div 2 ^ k mod 256"
  unfolding unsigned_ucast_eq unat_drop_bit_eq by (simp add: take_bit_eq_mod drop_bit_eq_div)

lemma getUint32_field:
  assumes "length pre = p" and "d < 4294967296"
  shows "getUint32 (pre @ bytes_of_uint32 (of_nat d) @ post) p = d"
proof -
  let ?w = "of_nat d :: 32 word"
  have u: "unat ?w = d" using assms(2) by (simp add: unat_of_nat)
  have n: "(pre @ bytes_of_uint32 ?w @ post) ! (p + i) = (bytes_of_uint32 ?w @ post) ! i" for i
    using assms(1) by (simp add: nth_append)
  have "getUint32 (pre @ bytes_of_uint32 ?w @ post) p
      = unat (ucast (drop_bit 0 ?w) :: byte) + 256 * unat (ucast (drop_bit 8 ?w) :: byte)
        + 65536 * unat (ucast (drop_bit 16 ?w) :: byte) + 16777216 * unat (ucast (drop_bit 24 ?w) :: byte)"
    unfolding getUint32_def n n [of 0, simplified] by (simp add: bytes_of_uint32_def)
  also have "\<dots> = d"
    unfolding unat_byte_of_uint32 u using nat_le32 [OF assms(2)] assms(2) by simp
  finally show ?thesis .
qed

lemma getUint16_field:
  assumes "length pre = p" and "d < 65536"
  shows "getUint16 (pre @ bytes_of_int16 (of_nat d) @ post) p = d"
proof -
  let ?w = "of_nat d :: int16"
  have u: "unat ?w = d" using assms(2) by (simp add: unat_of_nat)
  have n: "(pre @ bytes_of_int16 ?w @ post) ! (p + i) = (bytes_of_int16 ?w @ post) ! i" for i
    using assms(1) by (simp add: nth_append)
  have "getUint16 (pre @ bytes_of_int16 ?w @ post) p
      = unat (ucast (drop_bit 0 ?w) :: byte) + 256 * unat (ucast (drop_bit 8 ?w) :: byte)"
    unfolding getUint16_def n n [of 0, simplified] by (simp add: bytes_of_int16_def)
  also have "\<dots> = d"
    unfolding unat_byte_of_int16 u using nat_le16 [OF assms(2)] assms(2) by simp
  finally show ?thesis .
qed

lemma getUint32_take: "p + 4 \<le> k \<Longrightarrow> getUint32 (take k v) p = getUint32 v p"
  by (simp add: getUint32_def)

lemma getUint16_take: "p + 2 \<le> k \<Longrightarrow> getUint16 (take k v) p = getUint16 v p"
  by (simp add: getUint16_def)

lemma tags: "bytes_of_uint32 0x46464952 = ascii_bytes ''RIFF''"
  "bytes_of_uint32 0x45564157 = ascii_bytes ''WAVE''"
  "bytes_of_uint32 0x20746d66 = ascii_bytes ''fmt ''"
  "bytes_of_uint32 0x61746164 = ascii_bytes ''data''"
  by (simp_all add: bytes_of_uint32_def ascii_bytes_def drop_bit_eq_div)

lemma field32_at:
  assumes "take 44 out = pre @ bytes_of_uint32 (of_nat d) @ post"
    and "length pre = p" and "d < 4294967296" and "p + 4 \<le> 44"
  shows "getUint32 out p = d"
proof -
  have "getUint32 out p = getUint32 (take 44 out) p"
    using assms(4) by (simp add: getUint32_take)
  then show ?thesis
    unfolding assms(1) using getUint32_field [OF assms(2) assms(3)] by simp
qed

lemma field16_at:
  assumes "take 44 out = pre @ bytes_of_int16 (of_nat d) @ post"
    and "length pre = p" and "d < 65536" and "p + 2 \<le> 44"
  shows "getUint16 out p = d"
proof -
  have "getUint16 out p = getUint16 (take 44 out) p"
    using assms(4) by (simp add: getUint16_take)
  then show ?thesis
    unfolding assms(1) using getUint16_field [OF assms(2) assms(3)] by simp
qed

lemma tag_at:
  assumes "take 44 out = pre @ bs @ post"
    and "length pre = p" and "length bs = 4" and "p + 4 \<le> 44"
  shows "take 4 (drop p out) = bs"
proof -
  have "take 4 (drop p (take 44 out)) = take 4 (take (44 - p) (drop p out))"
    by (simp add: drop_take)
  also have "\<dots> = take 4 (drop p out)"
    using assms(4) by (simp add: min_def)
  finally have "take 4 (drop p out) = take 4 (drop p (pre @ bs @ post))"
    unfolding assms(1) by simp
  then show ?thesis
    using assms(2) assms(3) by simp
qed

text \<open>
  Claim C5. The encoder returns a buffer of \<open>44 + 2 * N * channels\<close> bytes (\<open>44 + 2 * N\<close>
  for a mono buffer of \<open>N\<close> samples) whose header holds, in little-endian order, the tag
  \<open>RIFF\<close>, the file length less 8, the tags \<open>WAVE\<close> and \<open>fmt\<close>, 16, the format 1,
  the channel count, the sample rate, the byte rate, the block alignment, 16 bits per
  sample, the tag \<open>data\<close> and the data length. The hypotheses say that each value fits
  the width of its field.
\<close>

theorem audioBufferToWav_header:
  assumes size: "length_buf buffer * numberOfChannels buffer * 2 + 44 < 4294967296"
    and rate: "sampleRate buffer < 4294967296"
    and byteRate: "sampleRate buffer * 2 * numberOfChannels buffer < 4294967296"
    and blockAlign: "numberOfChannels buffer * 2 < 65536"
  shows "\<exists>out. audioBufferToWav buffer = Inr out
     \<and> length out = 44 + 2 * length_buf buffer * numberOfChannels buffer
     \<and> take 4 out = ascii_bytes ''RIFF''
     \<and> getUint32 out 4 = length out - 8
     \<and> take 4 (drop 8 out) = ascii_bytes ''WAVE''
     \<and> take 4 (drop 12 out) = ascii_bytes ''fmt ''
     \<and> getUint32 out 16 = 16
     \<and> getUint16 out 20 = 1
     \<and> getUint16 out 22 = numberOfChannels buffer
     \<and> getUint32 out 24 = sampleRate buffer
     \<and> getUint32 out 28 = sampleRate buffer * numberOfChannels buffer * 2
     \<and> getUint16 out 32 = numberOfChannels buffer * 2
     \<and> getUint16 out 34 = 16
     \<and> take 4 (drop 36 out) = ascii_bytes ''data''
     \<and> getUint32 out 40 = 2 * length_buf buffer * numberOfChannels buffer"
proof -
  define c where "c = numberOfChannels buffer"
  define n where "n = length_buf buffer"
  define r where "r = sampleRate buffer"
  define len where "len = n * c * 2 + 44"
  define b1 where "b1 = bytes_of_uint32 0x46464952"
  define b2 where "b2 = bytes_of_uint32 (of_nat (len - 8))"
  define b3 where "b3 = bytes_of_uint32 0x45564157"
  define b4 where "b4 = bytes_of_uint32 0x20746d66"
  define b5 where "b5 = bytes_of_uint32 (of_nat 16)"
  define b6 where "b6 = bytes_of_int16 (of_nat 1)"
  define b7 where "b7 = bytes_of_int16 (of_nat c)"
  define b8 where "b8 = bytes_of_uint32 (of_nat r)"
  define b9 where "b9 = bytes_of_uint32 (of_nat (r * 2 * c))"
  define b10 where "b10 = bytes_of_int16 (of_nat (c * 2))"
  define b11 where "b11 = bytes_of_int16 (of_nat 16)"
  define b12 where "b12 = bytes_of_uint32 0x61746164"
  define b13 where "b13 = bytes_of_uint32 (of_nat (len - 44))"
  note bs = b1_def b2_def b3_def b4_def b5_def b6_def b7_def b8_def b9_def b10_def b11_def
    b12_def b13_def
  have l4: "length b1 = 4" "length b2 = 4" "length b3 = 4" "length b4 = 4" "length b5 = 4"
    "length b8 = 4" "length b9 = 4" "length b12 = 4" "length b13 = 4"
    by (simp_all add: bs bytes_of_uint32_length)
  have l2: "length b6 = 2" "length b7 = 2" "length b10 = 2" "length b11 = 2"
    by (simp_all add: bs bytes_of_int16_length)
  define hdr where "hdr = b1 @ b2 @ b3 @ b4 @ b5 @ b6 @ b7 @ b8 @ b9 @ b10 @ b11 @ b12 @ b13"
  have hdr_len: "length hdr = 44"
    by (simp add: hdr_def l4 l2)
  have len44: "44 \<le> len" by (simp add: len_def)
  have "concat (header_fields buffer len) @ bytes_of_uint32 (of_nat (len - 44)) = hdr"
    by (simp add: header_fields_def hdr_def bs c_def r_def)
  with wav_header_result [OF len44, of buffer]
  have h: "wav_header buffer len \<lparr> view = replicate len 0, pos = 0 \<rparr>
      = Inr \<lparr> view = hdr @ replicate (len - 44) 0, pos = 44 \<rparr>"
    by simp
  have "n * c - 44 * c \<le> n * c" by simp
  then have "44 + 0 + 2 * c * (n - 44) \<le> length (hdr @ replicate (len - 44) (0 :: byte))"
    by (simp add: hdr_len len_def diff_mult_distrib mult.commute)
  from wav_loop_ok [OF this, of "channelData buffer"] obtain out where
    loop: "wav_loop (channelData buffer) c n 44 0 (hdr @ replicate (len - 44) 0) = Inr out"
    and out_len: "length out = len" and out_hdr: "take 44 out = hdr"
    using hdr_len len44 by auto
  have res: "audioBufferToWav buffer = Inr out"
    using h loop by (simp add: audioBufferToWav_def Let_def c_def [symmetric] n_def [symmetric]
        len_def [symmetric])
  have sz: "len - 8 < 4294967296" "len - 44 < 4294967296"
    using size by (simp_all add: len_def n_def c_def)
  have f0: "take 4 (drop 0 out) = b1"
    by (rule tag_at [where pre = "[]" and post = "b2 @ b3 @ b4 @ b5 @ b6 @ b7 @ b8 @ b9 @ b10 @ b11 @ b12 @ b13"])
       (simp_all add: out_hdr hdr_def l4)
  have f4: "getUint32 out 4 = len - 8"
    by (rule field32_at [where pre = "b1" and post = "b3 @ b4 @ b5 @ b6 @ b7 @ b8 @ b9 @ b10 @ b11 @ b12 @ b13"])
       (simp_all add: out_hdr hdr_def l4 sz b2_def)
  have f8: "take 4 (drop 8 out) = b3"
    by (rule tag_at [where pre = "b1 @ b2" and post = "b4 @ b5 @ b6 @ b7 @ b8 @ b9 @ b10 @ b11 @ b12 @ b13"])
       (simp_all add: out_hdr hdr_def l4)
  have f12: "take 4 (drop 12 out) = b4"
    by (rule tag_at [where pre = "b1 @ b2 @ b3" and post = "b5 @ b6 @ b7 @ b8 @ b9 @ b10 @ b11 @ b12 @ b13"])
       (simp_all add: out_hdr hdr_def l4)
  have f16: "getUint32 out 16 = 16"
    by (rule field32_at [where pre = "b1 @ b2 @ b3 @ b4" and post = "b6 @ b7 @ b8 @ b9 @ b10 @ b11 @ b12 @ b13"])
       (simp_all add: out_hdr hdr_def l4 b5_def)
  have f20: "getUint16 out 20 = 1"
    by (rule field16_at [where pre = "b1 @ b2 @ b3 @ b4 @ b5" and post = "b7 @ b8 @ b9 @ b10 @ b11 @ b12 @ b13"])
       (simp_all add: out_hdr hdr_def l4 b6_def)
  have f22: "getUint16 out 22 = c"
    by (rule field16_at [where pre = "b1 @ b2 @ b3 @ b4 @ b5 @ b6" and post = "b8 @ b9 @ b10 @ b11 @ b12 @ b13"])
       (use blockAlign in \<open>simp_all add: out_hdr hdr_def l4 l2 b7_def c_def\<close>)
  have f24: "getUint32 out 24 = r"
    by (rule field32_at [where pre = "b1 @ b2 @ b3 @ b4 @ b5 @ b6 @ b7" and post = "b9 @ b10 @ b11 @ b12 @ b13"])
       (use rate in \<open>simp_all add: out_hdr hdr_def l4 l2 b8_def r_def\<close>)
  have f28: "getUint32 out 28 = r * 2 * c"
    by (rule field32_at [where pre = "b1 @ b2 @ b3 @ b4 @ b5 @ b6 @ b7 @ b8" and post = "b10 @ b11 @ b12 @ b13"])
       (use byteRate in \<open>simp_all add: out_hdr hdr_def l4 l2 b9_def r_def c_def\<close>)
  have f32: "getUint16 out 32 = c * 2"
    by (rule field16_at [where pre = "b1 @ b2 @ b3 @ b4 @ b5 @ b6 @ b7 @ b8 @ b9" and post = "b11 @ b12 @ b13"])
       (use blockAlign in \<open>simp_all add: out_hdr hdr_def l4 l2 b10_def c_def\<close>)
  have f34: "getUint16 out 34 = 16"
    by (rule field16_at [where pre = "b1 @ b2 @ b3 @ b4 @ b5 @ b6 @ b7 @ b8 @ b9 @ b10" and post = "b12 @ b13"])
       (simp_all add: out_hdr hdr_def l4 l2 b11_def)
  have f36: "take 4 (drop 36 out) = b12"
    by (rule tag_at [where pre = "b1 @ b2 @ b3 @ b4 @ b5 @ b6 @ b7 @ b8 @ b9 @ b10 @ b11" and post = "b13"])
       (simp_all add: out_hdr hdr_def l4 l2)
  have f40: "getUint32 out 40 = len - 44"
    by (rule field32_at [where pre = "b1 @ b2 @ b3 @ b4 @ b5 @ b6 @ b7 @ b8 @ b9 @ b10 @ b11 @ b12" and post = "[]"])
       (simp_all add: out_hdr hdr_def l4 l2 sz b13_def)
  show ?thesis
    using res out_len f0 f4 f8 f12 f16 f20 f22 f24 f28 f32 f34 f36 f40
    by (simp add: tags b1_def b3_def b4_def b12_def len_def c_def n_def r_def ac_simps)
qed

theorem audioBufferToWav_header_witness:
  "\<exists>out. audioBufferToWav \<lparr> sampleRate = 16000, length_buf = 2,
                              channelData = [[Finite 0, Finite (1/2)]] \<rparr> = Inr out
     \<and> length out = 48 \<and> take 4 out = ascii_bytes ''RIFF'' \<and> getUint32 out 4 = 40
     \<and> getUint16 out 20 = 1 \<and> getUint16 out 22 = 1 \<and> getUint32 out 24 = 16000
     \<and> getUint32 out 28 = 32000 \<and> getUint16 out 32 = 2 \<and> getUint16 out 34 = 16
     \<and> getUint32 out 40 = 4"
  using audioBufferToWav_header
    [of "\<lparr> sampleRate = 16000, length_buf = 2, channelData = [[Finite 0, Finite (1/2)]] \<rparr>"]
  by (auto simp: numberOfChannels_def)

lemma wav_sample_quarter: "bytes_of_int16 (scast (wav_sample (Finite (- (1/4))))) = [0x01, 0xE0]"
  by code_simp

lemma wav_loop_one_frame:
  assumes "length hdr = 44"
  shows "wav_loop [replicate 45 (Finite (- (1/4)))] 1 45 44 0 (hdr @ replicate 90 0)
         = Inr (hdr @ [0x01, 0xE0] @ replicate 88 0)"
proof -
  have s: "sample_at [replicate 45 (Finite (- (1/4)))] 0 44 = Finite (- (1/4))"
    by (simp add: sample_at_def)
  have "replicate (2 + 88) (0 :: byte) = replicate 2 0 @ replicate 88 0"
    by (rule replicate_add)
  then have r: "replicate 90 (0 :: byte) = [0, 0] @ replicate 88 0"
    by (simp add: numeral_2_eq_2)
  have w: "view_set 44 [0x01, 0xE0] (hdr @ replicate 90 0) = Inr (hdr @ [0x01, 0xE0] @ replicate 88 0)"
    unfolding r using assms by (simp add: view_set_def)
  show ?thesis
    by (simp add: wav_loop.simps s wav_sample_quarter w)
qed

lemma trunc_bounds:
  assumes "- of_int n \<le> x" and "x \<le> of_int n"
  shows "- n \<le> trunc x" and "trunc x \<le> n"
proof -
  have n: "0 \<le> n" using assms by linarith
  have "- n \<le> trunc x \<and> trunc x \<le> n"
  proof (cases "0 \<le> x")
    case True
    have "\<lfloor>x\<rfloor> \<le> n" using assms(2) by (simp add: floor_le_iff)
    moreover have "0 \<le> \<lfloor>x\<rfloor>" using True by simp
    moreover have "trunc x = \<lfloor>x\<rfloor>" using True by (simp add: trunc_def)
    ultimately show ?thesis using n by linarith
  next
    case False
    have "- n \<le> \<lceil>x\<rceil>" using assms(1) by (simp add: le_ceiling_iff)
    moreover have "\<lceil>x\<rceil> \<le> 0" using False by (simp add: ceiling_le_iff)
    moreover have "trunc x = \<lceil>x\<rceil>" using False by (simp add: trunc_def)
    ultimately show ?thesis using n by linarith
  qed
  then show "- n \<le> trunc x" and "trunc x \<le> n" by simp_all
qed

lemma sint_int32_small:
  assumes "- 32768 \<le> k" and "k \<le> 32768"
  shows "sint (word_of_int k :: 32 word) = k"
proof -
  have "signed_take_bit 31 k = k"
    using assms by (intro signed_take_bit_int_eq_self) simp_all
  then show ?thesis by (simp add: sint_sbintrunc')
qed

lemma wav_sample_finite:
  "sint (wav_sample (Finite s))
   = (let c = max (- 1) (min 1 s) in trunc (if 1/2 + c < 0 then c * 32768 else c * 32767))"
proof -
  define c where "c = max (- 1) (min 1 s)"
  have c: "- 1 \<le> c" "c \<le> 1" by (simp_all add: c_def)
  define x where "x = (if 1/2 + c < 0 then c * 32768 else c * 32767)"
  have "- of_int 32768 \<le> x" "x \<le> of_int 32768"
    using c by (auto simp: x_def)
  from trunc_bounds [OF this] have small: "sint (word_of_int (trunc x) :: 32 word) = trunc x"
    by (intro sint_int32_small) simp_all
  have "math_max (- 1) (math_min 1 (Finite s)) = Finite c"
    by (simp add: c_def)
  then have "wav_sample (Finite s)
      = to_int32 (if js_negative (js_plus (1/2) (Finite c))
                  then js_times (Finite c) 32768 else js_times (Finite c) 32767)"
    by (simp only: wav_sample_def Let_def)
  also have "\<dots> = word_of_int (trunc x)"
    by (simp add: x_def to_int32_def)
  finally show ?thesis
    using small by (simp only: Let_def c_def [symmetric] x_def [symmetric])
qed

text \<open>
  Claim C1 at a failing input. The encoder clamps a finite sample and scales it by
  \<open>32768\<close> when \<open>0.5 + sample < 0\<close>, by \<open>32767\<close> otherwise. The sample \<open>-0.25\<close> is
  negative, and the rule scales it by \<open>32768\<close> to \<open>-8192\<close>; the encoder scales it by
  \<open>32767\<close> and stores \<open>-8191\<close>. In a mono buffer of 45 such samples the data section holds that one
  value followed by 88 zero bytes: the loop starts at the value 44 that the header left in
  \<open>pos\<close>, so the first 44 samples are never quantised.
\<close>

theorem wav_sample_threshold:
  "sint (wav_sample (Finite s))
     = (let c = max (- 1) (min 1 s) in trunc (if 1/2 + c < 0 then c * 32768 else c * 32767))
   \<and> sint (wav_sample (Finite (- (1/4)))) = - 8191 \<and> spec_quantize (- (1/4)) = - 8192
   \<and> map_sum id (drop 44)
        (audioBufferToWav \<lparr> sampleRate = 16000, length_buf = 45,
                            channelData = [replicate 45 (Finite (- (1/4)))] \<rparr>)
      = Inr ([0x01, 0xE0] @ replicate 88 0)"
proof -
  let ?b = "\<lparr> sampleRate = 16000, length_buf = 45, channelData = [replicate 45 (Finite (- (1/4)))] \<rparr>"
  let ?hdr = "concat (header_fields ?b 134) @ bytes_of_uint32 (of_nat (134 - 44))"
  have h: "wav_header ?b 134 \<lparr> view = replicate 134 0, pos = 0 \<rparr>
      = Inr \<lparr> view = ?hdr @ replicate 90 0, pos = 44 \<rparr>"
    using wav_header_result [of 134 ?b] by simp
  have l: "length ?hdr = 44"
    by (simp add: header_fields_length bytes_of_uint32_length)
  have "audioBufferToWav ?b = Inr (?hdr @ [0x01, 0xE0] @ replicate 88 0)"
    using wav_loop_one_frame [OF l] h
    by (simp add: audioBufferToWav_def numberOfChannels_def)
  then have "map_sum id (drop 44) (audioBufferToWav ?b) = Inr ([0x01, 0xE0] @ replicate 88 0)"
    using l by simp
  moreover have "sint (wav_sample (Finite (- (1/4)))) = - 8191 \<and> spec_quantize (- (1/4)) = - 8192"
    by code_simp
  ultimately show ?thesis using wav_sample_finite by blast
qed

section \<open>Properties of the playback decoder\<close>

lemma fold_typed_store_length:
  "length (fold (\<lambda>i cd. typed_store cd i (f i)) is xs) = length xs"
  by (induction "is" arbitrary: xs) (simp_all add: typed_store_def)

lemma fold_typed_store_nth:
  "j < length xs \<Longrightarrow>
   fold (\<lambda>i cd. typed_store cd i (f i)) [0..<m] xs ! j = (if j < m then f j else xs ! j)"
proof (induction m)
  case 0
  then show ?case by simp
next
  case (Suc m)
  let ?ys = "fold (\<lambda>i cd. typed_store cd i (f i)) [0..<m] xs"
  have len: "length ?ys = length xs" by (rule fold_typed_store_length)
  have "fold (\<lambda>i cd. typed_store cd i (f i)) [0..<Suc m] xs = typed_store ?ys m (f m)"
    by simp
  then show ?case
    using Suc len by (auto simp: typed_store_def nth_list_update)
qed

lemma sint_int16_range: "- 32768 \<le> sint (w :: int16) \<and> sint w < 32768"
  using sint_ge [of w] sint_lt [of w] by simp

lemma frame_index_bound:
  assumes "i < n div nc" and "c < nc"
  shows "i * nc + c < (n :: nat)"
proof -
  have "i * nc + c < Suc i * nc" using assms(2) by simp
  also have "\<dots> \<le> (n div nc) * nc" using assms(1) by (simp add: Suc_leI mult_le_mono1 del: mult_Suc)
  also have "\<dots> \<le> n" by simp
  finally show ?thesis .
qed

lemma fill_channel_nth:
  assumes nc: "0 < nc" and c: "c < nc" and i: "i < length d div nc"
    and len: "length cd = length d div nc"
  shows "fill_channel d nc (of_nat (length d) / of_nat nc) c cd ! i
         = Finite (of_int (sint (d ! (i * nc + c))) / 32768)"
proof -
  let ?q = "of_nat (length d) / of_nat nc :: rat"
  have fl: "nat \<lfloor>?q\<rfloor> = length d div nc"
    by (simp add: floor_divide_of_nat_eq)
  have "\<lfloor>?q\<rfloor> \<le> \<lceil>?q\<rceil>" by (rule floor_le_ceiling)
  then have m: "i < nat \<lceil>?q\<rceil>" using i fl by linarith
  have idx: "i * nc + c < length d" by (rule frame_index_bound [OF i c])
  have "fill_channel d nc ?q c cd ! i = js_divide (int16_read d (i * nc + c)) 32768"
    unfolding fill_channel_def using fold_typed_store_nth [of i cd _ "nat \<lceil>?q\<rceil>"] i len m
    by simp
  then show ?thesis using idx by (simp add: int16_read_def)
qed

lemma fill_channel_length: "length (fill_channel d nc q c cd) = length cd"
  unfolding fill_channel_def by (rule fold_typed_store_length)

lemma decodeAudioData_Inr:
  assumes "decodeAudioData bytes rate nc = Inr buffer"
  shows "even (length bytes) \<and> 0 < nc \<and> 0 < rate \<and> nc \<le> length (int16s_of_bytes bytes)
     \<and> sampleRate buffer = rate
     \<and> length_buf buffer = length (int16s_of_bytes bytes) div nc
     \<and> channelData buffer
         = map (\<lambda>c. fill_channel (int16s_of_bytes bytes) nc
                         (of_nat (length (int16s_of_bytes bytes)) / of_nat nc) c
                         (replicate (length (int16s_of_bytes bytes) div nc) (Finite 0)))
               [0..<nc]"
  using assms
  by (auto simp: decodeAudioData_def Int16Array_of_buffer_def createBuffer_def Let_def
      floor_divide_of_nat_eq div_eq_0_iff not_less
      split: if_splits sum.splits cong: map_cong)

lemma int16s_of_bytes_length: "length (int16s_of_bytes bs) = length bs div 2"
  by (induction bs rule: int16s_of_bytes.induct) simp_all

lemma decodeAudioData_returns:
  assumes "even (length bytes)" and "0 < nc" and "0 < rate" and "nc \<le> length bytes div 2"
  shows "\<exists>buffer. decodeAudioData bytes rate nc = Inr buffer"
proof -
  have "0 < (length bytes div 2) div nc"
    using assms(2) assms(4) by (simp add: div_greater_zero_iff)
  then show ?thesis
    using assms
    by (simp add: decodeAudioData_def Int16Array_of_buffer_def createBuffer_def Let_def
        floor_divide_of_nat_eq int16s_of_bytes_length)
qed

text \<open>
  Claim C10. When \<open>decodeAudioData\<close> returns a buffer, it has the requested number of
  channels and one frame per \<open>numChannels\<close> stored 16-bit values; the sample of channel
  \<open>c\<close> at frame \<open>i\<close> is the signed value at index \<open>i * numChannels + c\<close> divided by
  \<open>32768\<close>, and so lies in \<open>[-1, 1)\<close>. It returns a buffer for every input of even
  length that holds at least one frame (for other inputs it throws, and there is no sample).
\<close>

theorem decodeAudioData_samples:
  "(\<forall>buffer. decodeAudioData bytes rate numChannels = Inr buffer \<longrightarrow>
      length_buf buffer = length (int16s_of_bytes bytes) div numChannels
      \<and> numberOfChannels buffer = numChannels
      \<and> (\<forall>channel i. channel < numChannels \<and> i < length_buf buffer \<longrightarrow>
            length (channelData buffer ! channel) = length_buf buffer
            \<and> channelData buffer ! channel ! i
                = Finite (of_int (sint (int16s_of_bytes bytes ! (i * numChannels + channel))) / 32768)
            \<and> (\<exists>v. channelData buffer ! channel ! i = Finite v \<and> - 1 \<le> v \<and> v < 1)))
   \<and> (even (length bytes) \<and> 0 < numChannels \<and> 0 < rate \<and> numChannels \<le> length bytes div 2 \<longrightarrow>
      (\<exists>buffer. decodeAudioData bytes rate numChannels = Inr buffer))"
proof (intro conjI allI impI)
  fix buffer
  assume a: "decodeAudioData bytes rate numChannels = Inr buffer"
  let ?d = "int16s_of_bytes bytes"
  let ?F = "length ?d div numChannels"
  note r = decodeAudioData_Inr [OF a]
  have F: "length_buf buffer = ?F" and nc: "0 < numChannels"
    and cd: "channelData buffer
         = map (\<lambda>c. fill_channel ?d numChannels (of_nat (length ?d) / of_nat numChannels) c
                         (replicate ?F (Finite 0))) [0..<numChannels]"
    using r by simp_all
  show "length_buf buffer = ?F" by (rule F)
  show "numberOfChannels buffer = numChannels"
    by (simp add: numberOfChannels_def cd)
  fix channel i
  assume b: "channel < numChannels \<and> i < length_buf buffer"
  have ch: "channelData buffer ! channel
      = fill_channel ?d numChannels (of_nat (length ?d) / of_nat numChannels) channel
          (replicate ?F (Finite 0))"
    using b by (simp add: cd)
  have i: "i < ?F" using b F by simp
  let ?v = "of_int (sint (?d ! (i * numChannels + channel))) / 32768 :: rat"
  have val: "channelData buffer ! channel ! i = Finite ?v"
    unfolding ch using b by (intro fill_channel_nth [OF nc _ i]) simp_all
  have "- 32768 \<le> sint (?d ! (i * numChannels + channel))"
       "sint (?d ! (i * numChannels + channel)) < 32768"
    using sint_int16_range by blast+
  then have "- 32768 \<le> (of_int (sint (?d ! (i * numChannels + channel))) :: rat)"
    "(of_int (sint (?d ! (i * numChannels + channel))) :: rat) < 32768"
    by linarith+
  then have rng: "- 1 \<le> ?v" "?v < 1"
    by (simp_all add: field_simps)
  show "length (channelData buffer ! channel) = length_buf buffer"
    unfolding ch F by (simp add: fill_channel_length)
  show "channelData buffer ! channel ! i = Finite ?v" by (rule val)
  show "\<exists>v. channelData buffer ! channel ! i = Finite v \<and> - 1 \<le> v \<and> v < 1"
    using val rng by blast
next
  assume "even (length bytes) \<and> 0 < numChannels \<and> 0 < rate \<and> numChannels \<le> length bytes div 2"
  then show "\<exists>buffer. decodeAudioData bytes rate numChannels = Inr buffer"
    using decodeAudioData_returns by blast
qed

lemma two_samples: "map sint (int16s_of_bytes [0x00, 0x80, 0xFF, 0x7F]) = [- 32768, 32767]"
  by code_simp

theorem decodeAudioData_samples_witness:
  "\<exists>buffer. decodeAudioData [0x00, 0x80, 0xFF, 0x7F] 24000 1 = Inr buffer
     \<and> length_buf buffer = 2
     \<and> channelData buffer ! 0 ! 0 = Finite (- 1)
     \<and> channelData buffer ! 0 ! 1 = Finite (32767 / 32768)"
proof -
  let ?bytes = "[0x00, 0x80, 0xFF, 0x7F] :: byte list"
  note t = decodeAudioData_samples [of ?bytes 24000 1]
  from t obtain buffer where b: "decodeAudioData ?bytes 24000 1 = Inr buffer"
    by auto
  note p = t [THEN conjunct1, rule_format, OF b]
  have len: "length_buf buffer = 2"
    using p [THEN conjunct1] by (simp add: int16s_of_bytes_length)
  note all = p [THEN conjunct2, THEN conjunct2]
  have s: "sint (int16s_of_bytes ?bytes ! 0) = - 32768" "sint (int16s_of_bytes ?bytes ! 1) = 32767"
    using two_samples by simp_all
  have "channelData buffer ! 0 ! 0 = Finite (- 1)"
    using all [rule_format, of 0 0] len s(1) by simp
  moreover have "channelData buffer ! 0 ! 1 = Finite (32767 / 32768)"
    using all [rule_format, of 0 1] len s(2) by simp
  ultimately show ?thesis
    using b len by blast
qed

section \<open>Properties of the chunker\<close>






section \<open>Properties of the playback scheduler\<close>

lemma duration_nonneg: "0 \<le> duration b"
  by (simp add: duration_def)

lemma started_append: "started (xs @ ys) = started xs @ started ys"
  by (induction xs rule: started.induct) simp_all

lemma chain_ok_Cons:
  "chain_ok S \<Longrightarrow> \<forall>q \<in> set S. fst p + snd p \<le> fst q \<Longrightarrow> chain_ok (p # S)"
  by (cases S) simp_all

lemma chain_ok_nth:
  "chain_ok S \<Longrightarrow> Suc i < length S \<Longrightarrow> fst (S ! i) + snd (S ! i) \<le> fst (S ! Suc i)"
proof (induction S arbitrary: i rule: chain_ok.induct)
  case 1
  then show ?case by simp
next
  case (2 p)
  then show ?case by simp
next
  case (3 p q rest)
  then show ?case by (cases i) simp_all
qed

lemma schedule_audio_decoded:
  assumes "decodeAudio b64 = Inr bytes" and "decodeAudioData bytes 24000 1 = Inr buf"
  shows "schedule_audio now b64 st
       = st\<lparr> nextStartTime := max (nextStartTime st) now + duration buf,
              sources := sources st @ [created st],
              created := created st + 1,
              events := events st @ [Start (created st) (max (nextStartTime st) now) (duration buf)] \<rparr>"
  using assms by (simp add: schedule_audio_def Let_def max_def)

lemma schedule_audio_step:
  "(events (schedule_audio now b64 st) = events st
      \<and> nextStartTime st \<le> nextStartTime (schedule_audio now b64 st))
   \<or> (\<exists>d. 0 \<le> d
      \<and> events (schedule_audio now b64 st)
          = events st @ [Start (created st) (max (nextStartTime st) now) d]
      \<and> nextStartTime (schedule_audio now b64 st) = max (nextStartTime st) now + d)"
proof (cases "decodeAudio b64")
  case (Inl e)
  then show ?thesis by (simp add: schedule_audio_def Let_def)
next
  case (Inr bytes)
  show ?thesis
  proof (cases "decodeAudioData bytes 24000 1")
    case (Inl e)
    then show ?thesis using Inr by (simp add: schedule_audio_def Let_def)
  next
    case buf: (Inr buf)
    show ?thesis
      unfolding schedule_audio_decoded [OF Inr buf] using duration_nonneg [of buf]
      by (intro disjI2 exI [of _ "duration buf"]) simp
  qed
qed

lemma handle_step:
  assumes "\<not> interrupted m"
  shows "(events (handleServerMessage (Some now) m st) = events st
      \<and> nextStartTime st \<le> nextStartTime (handleServerMessage (Some now) m st))
   \<or> (\<exists>d. 0 \<le> d
      \<and> events (handleServerMessage (Some now) m st)
          = events st @ [Start (created st) (max (nextStartTime st) now) d]
      \<and> nextStartTime (handleServerMessage (Some now) m st) = max (nextStartTime st) now + d)"
proof (cases "base64Audio m")
  case None
  then show ?thesis using assms by (simp add: handleServerMessage_def)
next
  case (Some b64)
  show ?thesis
  proof (cases "b64 = []")
    case True
    then show ?thesis using assms Some by (simp add: handleServerMessage_def)
  next
    case False
    then have "handleServerMessage (Some now) m st = schedule_audio now b64 st"
      using assms Some by (simp add: handleServerMessage_def)
    then show ?thesis using schedule_audio_step [of now b64 st] by simp
  qed
qed

lemma handle_all_chain:
  "\<forall>e \<in> set evs. \<not> interrupted (snd e) \<Longrightarrow>
   \<exists>new. events (handle_all evs st) = events st @ new
     \<and> chain_ok (started new)
     \<and> (\<forall>p \<in> set (started new). nextStartTime st \<le> fst p)
     \<and> nextStartTime st \<le> nextStartTime (handle_all evs st)
     \<and> (\<forall>p \<in> set (started new). fst p + snd p \<le> nextStartTime (handle_all evs st))"
proof (induction evs arbitrary: st)
  case Nil
  then show ?case by simp
next
  case (Cons ev evs)
  obtain now m where ev: "ev = (now, m)" by (cases ev)
  let ?st1 = "handleServerMessage (Some now) m st"
  have m: "\<not> interrupted m" using Cons.prems ev by simp
  have rest: "\<forall>e \<in> set evs. \<not> interrupted (snd e)" using Cons.prems by simp
  from Cons.IH [OF rest, of ?st1] obtain new2 where
    e2: "events (handle_all evs ?st1) = events ?st1 @ new2"
    and c2: "chain_ok (started new2)"
    and lo2: "\<forall>p \<in> set (started new2). nextStartTime ?st1 \<le> fst p"
    and mono2: "nextStartTime ?st1 \<le> nextStartTime (handle_all evs ?st1)"
    and hi2: "\<forall>p \<in> set (started new2). fst p + snd p \<le> nextStartTime (handle_all evs ?st1)"
    by blast
  have run: "handle_all (ev # evs) st = handle_all evs ?st1"
    by (simp add: ev)
  from handle_step [OF m, of now st] show ?case
  proof (elim disjE exE conjE)
    assume same: "events ?st1 = events st" and mono1: "nextStartTime st \<le> nextStartTime ?st1"
    have "events (handle_all (ev # evs) st) = events st @ new2"
      using e2 same run by simp
    moreover have "\<forall>p \<in> set (started new2). nextStartTime st \<le> fst p"
      using lo2 mono1 by auto
    moreover have "nextStartTime st \<le> nextStartTime (handle_all (ev # evs) st)"
      using mono1 mono2 run by simp
    ultimately show ?thesis
      using c2 hi2 run by (intro exI [of _ new2]) simp
  next
    fix d
    assume d: "0 \<le> d"
      and ev1: "events ?st1 = events st @ [Start (created st) (max (nextStartTime st) now) d]"
      and next1: "nextStartTime ?st1 = max (nextStartTime st) now + d"
    let ?s = "max (nextStartTime st) now"
    let ?new = "Start (created st) ?s d # new2"
    have st: "started ?new = (?s, d) # started new2" by simp
    have "events (handle_all (ev # evs) st) = events st @ ?new"
      using e2 ev1 run by simp
    moreover have "chain_ok (started ?new)"
      unfolding st using c2 lo2 next1 by (intro chain_ok_Cons) simp_all
    moreover have "\<forall>p \<in> set (started ?new). nextStartTime st \<le> fst p"
      unfolding st using lo2 next1 d by auto
    moreover have "nextStartTime st \<le> nextStartTime (handle_all (ev # evs) st)"
      using mono2 next1 d run by simp
    moreover have "\<forall>p \<in> set (started ?new). fst p + snd p \<le> nextStartTime (handle_all (ev # evs) st)"
      unfolding st using hi2 mono2 next1 run by simp
    ultimately show ?thesis
      by (intro exI [of _ ?new]) blast
  qed
qed

text \<open>
  Claim C6. A message without interruption whose audio decodes to a buffer is started at
  \<open>max nextStartTime now\<close>, which is not before the clock \<open>now\<close> at its arrival, and moves
  the cursor to that start time plus the duration of the buffer. Over any sequence of
  messages without interruption, from any scheduler state, each item started ends no later
  than the next one starts: \<open>start (i + 1) \<ge> start i + d i\<close>.
\<close>

theorem scheduler_gapless:
  "(\<not> interrupted m \<and> base64Audio m = Some b64 \<and> b64 \<noteq> [] \<and> decodeAudio b64 = Inr bytes
      \<and> decodeAudioData bytes 24000 1 = Inr buf \<longrightarrow>
      handleServerMessage (Some now) m st
        = st\<lparr> nextStartTime := max (nextStartTime st) now + duration buf,
               sources := sources st @ [created st],
               created := created st + 1,
               events := events st @ [Start (created st) (max (nextStartTime st) now) (duration buf)] \<rparr>
      \<and> now \<le> max (nextStartTime st) now)
   \<and> ((\<forall>e \<in> set evs. \<not> interrupted (snd e)) \<longrightarrow>
      (\<exists>new. events (handle_all evs st) = events st @ new
         \<and> (\<forall>i. Suc i < length (started new) \<longrightarrow>
               fst (started new ! i) + snd (started new ! i) \<le> fst (started new ! Suc i))))"
proof (intro conjI impI)
  assume a: "\<not> interrupted m \<and> base64Audio m = Some b64 \<and> b64 \<noteq> [] \<and> decodeAudio b64 = Inr bytes
      \<and> decodeAudioData bytes 24000 1 = Inr buf"
  then have "handleServerMessage (Some now) m st = schedule_audio now b64 st"
    by (simp add: handleServerMessage_def)
  then show "handleServerMessage (Some now) m st
        = st\<lparr> nextStartTime := max (nextStartTime st) now + duration buf,
               sources := sources st @ [created st],
               created := created st + 1,
               events := events st @ [Start (created st) (max (nextStartTime st) now) (duration buf)] \<rparr>"
    using a schedule_audio_decoded by simp
  show "now \<le> max (nextStartTime st) now" by simp
next
  assume "\<forall>e \<in> set evs. \<not> interrupted (snd e)"
  from handle_all_chain [OF this, of st] obtain new where
    "events (handle_all evs st) = events st @ new" and "chain_ok (started new)"
    by blast
  then show "\<exists>new. events (handle_all evs st) = events st @ new
         \<and> (\<forall>i. Suc i < length (started new) \<longrightarrow>
               fst (started new ! i) + snd (started new ! i) \<le> fst (started new ! Suc i))"
    using chain_ok_nth by blast
qed

lemma three_silent_frames:
  "\<exists>buf. decodeAudioData [0, 0, 0, 0, 0, 0] 24000 1 = Inr buf \<and> duration buf = 1 / 8000"
proof -
  let ?bytes = "[0, 0, 0, 0, 0, 0] :: byte list"
  obtain buf where b: "decodeAudioData ?bytes 24000 1 = Inr buf"
    using decodeAudioData_returns [of ?bytes 1 24000] by auto
  have "sampleRate buf = 24000" "length_buf buf = 3"
    using decodeAudioData_Inr [OF b] by (simp_all add: int16s_of_bytes_length)
  then have "duration buf = 1 / 8000"
    by (simp add: duration_def)
  then show ?thesis using b by blast
qed

lemma encodeAudio_nonempty: "encodeAudio [0, 0, 0, 0, 0, 0] \<noteq> []"
  by (simp add: encodeAudio_def btoa_def)

theorem scheduler_gapless_witness:
  "events (handle_all
      [(1/2, \<lparr> interrupted = False, base64Audio = Some (encodeAudio [0, 0, 0, 0, 0, 0]) \<rparr>),
       (1/2, \<lparr> interrupted = False, base64Audio = Some (encodeAudio [0, 0, 0, 0, 0, 0]) \<rparr>)]
      scheduler_init)
   = [Start 0 (1/2) (1/8000), Start 1 (4001/8000) (1/8000)]
   \<and> fst ([(1/2, 1/8000), (4001/8000, 1/8000)] ! 0) + snd ([(1/2, 1/8000), (4001/8000, 1/8000)] ! 0)
       \<le> (fst ([(1/2, 1/8000), (4001/8000, 1/8000)] ! Suc 0) :: rat)"
proof -
  let ?m = "\<lparr> interrupted = False, base64Audio = Some (encodeAudio [0, 0, 0, 0, 0, 0]) \<rparr>"
  let ?evs = "[(1/2, ?m), (1/2, ?m)] :: (rat \<times> server_message) list"
  obtain buf where b: "decodeAudioData [0, 0, 0, 0, 0, 0] 24000 1 = Inr buf"
    and d: "duration buf = 1 / 8000"
    using three_silent_frames by blast
  have h: "\<not> interrupted ?m \<and> base64Audio ?m = Some (encodeAudio [0, 0, 0, 0, 0, 0])
      \<and> encodeAudio [0, 0, 0, 0, 0, 0] \<noteq> []
      \<and> decodeAudio (encodeAudio [0, 0, 0, 0, 0, 0]) = Inr [0, 0, 0, 0, 0, 0]
      \<and> decodeAudioData [0, 0, 0, 0, 0, 0] 24000 1 = Inr buf"
    using b encodeAudio_nonempty by (simp add: decode_encode_bytes)
  note step = scheduler_gapless [where evs = ?evs, THEN conjunct1, rule_format, OF h, THEN conjunct1]
  let ?st1 = "handleServerMessage (Some (1/2)) ?m scheduler_init"
  have s1: "?st1 = \<lparr> nextStartTime = 4001/8000, sources = [0], created = 1,
                     events = [Start 0 (1/2) (1/8000)] \<rparr>"
    unfolding step [of "1/2" scheduler_init] by (simp add: scheduler_init_def d)
  have s2: "handleServerMessage (Some (1/2)) ?m ?st1
      = \<lparr> nextStartTime = 4002/8000, sources = [0, 1], created = 2,
          events = [Start 0 (1/2) (1/8000), Start 1 (4001/8000) (1/8000)] \<rparr>"
    unfolding step [of "1/2" ?st1] unfolding s1 by (simp add: d)
  have ev: "events (handle_all ?evs scheduler_init)
      = [Start 0 (1/2) (1/8000), Start 1 (4001/8000) (1/8000)]"
    using s2 by simp
  have quiet: "\<forall>e \<in> set ?evs. \<not> interrupted (snd e)" by simp
  from scheduler_gapless [where evs = ?evs and st = scheduler_init, THEN conjunct2, THEN mp, OF quiet]
  obtain new where n: "events (handle_all ?evs scheduler_init) = events scheduler_init @ new"
    and c: "\<forall>i. Suc i < length (started new) \<longrightarrow>
               fst (started new ! i) + snd (started new ! i) \<le> fst (started new ! Suc i)"
    by blast
  have "new = [Start 0 (1/2) (1/8000), Start 1 (4001/8000) (1/8000)]"
    using n ev by (simp add: scheduler_init_def)
  then have "started new = [(1/2, 1/8000), (4001/8000, 1/8000)]"
    by simp
  with c [rule_format, of 0] ev show ?thesis
    by simp
qed

lemma handle_interrupt_only:
  assumes "interrupted m" and "base64Audio m = None \<or> base64Audio m = Some []"
  shows "handleServerMessage (Some now) m st = interrupt st"
  using assms by (auto simp: handleServerMessage_def)

lemma interrupt_twice: "interrupt (interrupt st) = interrupt st"
  by (simp add: interrupt_def)

lemma schedule_after_interrupt:
  assumes "decodeAudio b64 = Inr bytes" and "decodeAudioData bytes 24000 1 = Inr buf" and "0 \<le> t"
  shows "events (schedule_audio t b64 (interrupt st))
           = events st @ map Stop (sources st) @ [Start (created st) t (duration buf)]"
    and "nextStartTime (schedule_audio t b64 (interrupt st)) = t + duration buf"
    and "sources (schedule_audio t b64 (interrupt st)) = [created st]"
  unfolding schedule_audio_decoded [OF assms(1) assms(2)] using assms(3)
  by (simp_all add: interrupt_def max_def)

text \<open>
  Claim C7. In a live session (the output context exists), an interruption without audio,
  from any scheduler state, stops every scheduled source, empties the set and puts the
  cursor to 0; a second interruption changes nothing; and the next item that arrives, at a
  clock \<open>t \<ge> 0\<close>, starts at \<open>t\<close> whatever the cursor was before the interruption. When
  the interrupting message carries an item itself, the same is done before that item is
  scheduled, and it starts at the clock of the message.
\<close>

theorem interruption_resets:
  "(interrupted m \<and> (base64Audio m = None \<or> base64Audio m = Some []) \<longrightarrow>
      handleServerMessage (Some now) m st
        = st\<lparr> nextStartTime := 0, sources := [], events := events st @ map Stop (sources st) \<rparr>
      \<and> handleServerMessage (Some now') m (handleServerMessage (Some now) m st)
          = handleServerMessage (Some now) m st
      \<and> (\<forall>m2 b64 bytes buf t.
            \<not> interrupted m2 \<and> base64Audio m2 = Some b64 \<and> b64 \<noteq> []
              \<and> decodeAudio b64 = Inr bytes \<and> decodeAudioData bytes 24000 1 = Inr buf \<and> 0 \<le> t \<longrightarrow>
            events (handleServerMessage (Some t) m2 (handleServerMessage (Some now) m st))
              = events st @ map Stop (sources st) @ [Start (created st) t (duration buf)]
            \<and> nextStartTime (handleServerMessage (Some t) m2 (handleServerMessage (Some now) m st))
              = t + duration buf
            \<and> sources (handleServerMessage (Some t) m2 (handleServerMessage (Some now) m st))
              = [created st]))
   \<and> (interrupted m \<and> base64Audio m = Some b64 \<and> b64 \<noteq> [] \<and> decodeAudio b64 = Inr bytes
        \<and> decodeAudioData bytes 24000 1 = Inr buf \<and> 0 \<le> now \<longrightarrow>
      events (handleServerMessage (Some now) m st)
        = events st @ map Stop (sources st) @ [Start (created st) now (duration buf)]
      \<and> nextStartTime (handleServerMessage (Some now) m st) = now + duration buf
      \<and> sources (handleServerMessage (Some now) m st) = [created st])"
proof (rule conjI; rule impI)
  assume a: "interrupted m \<and> (base64Audio m = None \<or> base64Audio m = Some [])"
  then have i: "handleServerMessage (Some t) m s = interrupt s" for t s
    using handle_interrupt_only by blast
  have 1: "handleServerMessage (Some now) m st
        = st\<lparr> nextStartTime := 0, sources := [], events := events st @ map Stop (sources st) \<rparr>"
    unfolding i by (simp add: interrupt_def)
  have 2: "handleServerMessage (Some now') m (handleServerMessage (Some now) m st)
          = handleServerMessage (Some now) m st"
    unfolding i by (rule interrupt_twice)
  have 3: "\<forall>m2 b64 bytes buf t.
            \<not> interrupted m2 \<and> base64Audio m2 = Some b64 \<and> b64 \<noteq> []
              \<and> decodeAudio b64 = Inr bytes \<and> decodeAudioData bytes 24000 1 = Inr buf \<and> 0 \<le> t \<longrightarrow>
            events (handleServerMessage (Some t) m2 (handleServerMessage (Some now) m st))
              = events st @ map Stop (sources st) @ [Start (created st) t (duration buf)]
            \<and> nextStartTime (handleServerMessage (Some t) m2 (handleServerMessage (Some now) m st))
              = t + duration buf
            \<and> sources (handleServerMessage (Some t) m2 (handleServerMessage (Some now) m st))
              = [created st]"
  proof (intro allI impI)
    fix m2 :: server_message and b64 bytes buf and t :: rat
    assume b: "\<not> interrupted m2 \<and> base64Audio m2 = Some b64 \<and> b64 \<noteq> []
              \<and> decodeAudio b64 = Inr bytes \<and> decodeAudioData bytes 24000 1 = Inr buf \<and> 0 \<le> t"
    then have "handleServerMessage (Some t) m2 (interrupt st) = schedule_audio t b64 (interrupt st)"
      by (simp add: handleServerMessage_def)
    then show "events (handleServerMessage (Some t) m2 (handleServerMessage (Some now) m st))
              = events st @ map Stop (sources st) @ [Start (created st) t (duration buf)]
            \<and> nextStartTime (handleServerMessage (Some t) m2 (handleServerMessage (Some now) m st))
              = t + duration buf
            \<and> sources (handleServerMessage (Some t) m2 (handleServerMessage (Some now) m st))
              = [created st]"
      unfolding i using b schedule_after_interrupt [of b64 bytes buf t st] by simp
  qed
  from 1 2 3 show "handleServerMessage (Some now) m st
        = st\<lparr> nextStartTime := 0, sources := [], events := events st @ map Stop (sources st) \<rparr>
      \<and> handleServerMessage (Some now') m (handleServerMessage (Some now) m st)
          = handleServerMessage (Some now) m st
      \<and> (\<forall>m2 b64 bytes buf t.
            \<not> interrupted m2 \<and> base64Audio m2 = Some b64 \<and> b64 \<noteq> []
              \<and> decodeAudio b64 = Inr bytes \<and> decodeAudioData bytes 24000 1 = Inr buf \<and> 0 \<le> t \<longrightarrow>
            events (handleServerMessage (Some t) m2 (handleServerMessage (Some now) m st))
              = events st @ map Stop (sources st) @ [Start (created st) t (duration buf)]
            \<and> nextStartTime (handleServerMessage (Some t) m2 (handleServerMessage (Some now) m st))
              = t + duration buf
            \<and> sources (handleServerMessage (Some t) m2 (handleServerMessage (Some now) m st))
              = [created st])"
    by blast
next
  assume c: "interrupted m \<and> base64Audio m = Some b64 \<and> b64 \<noteq> [] \<and> decodeAudio b64 = Inr bytes
        \<and> decodeAudioData bytes 24000 1 = Inr buf \<and> 0 \<le> now"
  then have "handleServerMessage (Some now) m st = schedule_audio now b64 (interrupt st)"
    by (simp add: handleServerMessage_def)
  then show "events (handleServerMessage (Some now) m st)
        = events st @ map Stop (sources st) @ [Start (created st) now (duration buf)]
      \<and> nextStartTime (handleServerMessage (Some now) m st) = now + duration buf
      \<and> sources (handleServerMessage (Some now) m st) = [created st]"
    using c schedule_after_interrupt [of b64 bytes buf now st] by simp
qed

theorem interruption_resets_witness:
  "handleServerMessage (Some 1) \<lparr> interrupted = True, base64Audio = None \<rparr>
      \<lparr> nextStartTime = 10, sources = [3, 4], created = 5, events = [] \<rparr>
     = \<lparr> nextStartTime = 0, sources = [], created = 5, events = [Stop 3, Stop 4] \<rparr>
   \<and> handleServerMessage (Some 7) \<lparr> interrupted = True, base64Audio = None \<rparr>
       (handleServerMessage (Some 1) \<lparr> interrupted = True, base64Audio = None \<rparr>
          \<lparr> nextStartTime = 10, sources = [3, 4], created = 5, events = [] \<rparr>)
     = \<lparr> nextStartTime = 0, sources = [], created = 5, events = [Stop 3, Stop 4] \<rparr>
   \<and> events (handleServerMessage (Some 2)
         \<lparr> interrupted = False, base64Audio = Some (encodeAudio [0, 0, 0, 0, 0, 0]) \<rparr>
         (handleServerMessage (Some 1) \<lparr> interrupted = True, base64Audio = None \<rparr>
            \<lparr> nextStartTime = 10, sources = [3, 4], created = 5, events = [] \<rparr>))
     = [Stop 3, Stop 4, Start 5 2 (1/8000)]
   \<and> events (handleServerMessage (Some 2)
         \<lparr> interrupted = True, base64Audio = Some (encodeAudio [0, 0, 0, 0, 0, 0]) \<rparr>
         \<lparr> nextStartTime = 10, sources = [3, 4], created = 5, events = [] \<rparr>)
     = [Stop 3, Stop 4, Start 5 2 (1/8000)]"
proof -
  let ?i = "\<lparr> interrupted = True, base64Audio = None \<rparr>"
  let ?a = "\<lparr> interrupted = False, base64Audio = Some (encodeAudio [0, 0, 0, 0, 0, 0]) \<rparr>"
  let ?ia = "\<lparr> interrupted = True, base64Audio = Some (encodeAudio [0, 0, 0, 0, 0, 0]) \<rparr>"
  let ?st = "\<lparr> nextStartTime = 10, sources = [3, 4], created = 5, events = [] \<rparr>"
  have h: "interrupted ?i \<and> (base64Audio ?i = None \<or> base64Audio ?i = Some [])" by simp
  note t = interruption_resets [where m = ?i and st = ?st and now = 1 and now' = 7,
      THEN conjunct1, THEN mp, OF h]
  have 1: "handleServerMessage (Some 1) ?i ?st
      = \<lparr> nextStartTime = 0, sources = [], created = 5, events = [Stop 3, Stop 4] \<rparr>"
    using t [THEN conjunct1] by simp
  have 2: "handleServerMessage (Some 7) ?i (handleServerMessage (Some 1) ?i ?st)
      = \<lparr> nextStartTime = 0, sources = [], created = 5, events = [Stop 3, Stop 4] \<rparr>"
    using t [THEN conjunct2, THEN conjunct1] 1 by simp
  obtain buf where b: "decodeAudioData [0, 0, 0, 0, 0, 0] 24000 1 = Inr buf"
    and d: "duration buf = 1 / 8000"
    using three_silent_frames by blast
  have a: "\<not> interrupted ?a \<and> base64Audio ?a = Some (encodeAudio [0, 0, 0, 0, 0, 0])
      \<and> encodeAudio [0, 0, 0, 0, 0, 0] \<noteq> []
      \<and> decodeAudio (encodeAudio [0, 0, 0, 0, 0, 0]) = Inr [0, 0, 0, 0, 0, 0]
      \<and> decodeAudioData [0, 0, 0, 0, 0, 0] 24000 1 = Inr buf \<and> (0 :: rat) \<le> 2"
    using b encodeAudio_nonempty by (simp add: decode_encode_bytes)
  have 3: "events (handleServerMessage (Some 2) ?a (handleServerMessage (Some 1) ?i ?st))
      = [Stop 3, Stop 4, Start 5 2 (1/8000)]"
    using t [THEN conjunct2, THEN conjunct2, rule_format, OF a, THEN conjunct1] d by simp
  have ia: "interrupted ?ia \<and> base64Audio ?ia = Some (encodeAudio [0, 0, 0, 0, 0, 0])
      \<and> encodeAudio [0, 0, 0, 0, 0, 0] \<noteq> []
      \<and> decodeAudio (encodeAudio [0, 0, 0, 0, 0, 0]) = Inr [0, 0, 0, 0, 0, 0]
      \<and> decodeAudioData [0, 0, 0, 0, 0, 0] 24000 1 = Inr buf \<and> (0 :: rat) \<le> 2"
    using b encodeAudio_nonempty by (simp add: decode_encode_bytes)
  have 4: "events (handleServerMessage (Some 2) ?ia ?st) = [Stop 3, Stop 4, Start 5 2 (1/8000)]"
    using interruption_resets [where m = ?ia and st = ?st and now = 2,
        THEN conjunct2, THEN mp, OF ia, THEN conjunct1] d
    by simp
  from 1 2 3 4 show ?thesis by blast
qed

section \<open>Properties of the dispatcher\<close>











end
